theory Spec2Isabelle
  imports Main "HOL-Library.Word"
begin

section \<open>Go values shared by the server code\<close>

text \<open>
  A run-time panic of the Go program is a value of type \<open>panic\<close>; a function that can
  panic returns \<open>panic + 'a\<close> with \<open>Inl\<close> for the panic. A Go \<open>error\<close> result is a value
  of type \<open>error option\<close>, \<open>None\<close> being Go's \<open>nil\<close>.
\<close>

datatype panic = NilPointerDereference | IndexOutOfRange | MuxRegistration

datatype num_err = ErrSyntax | ErrRange

datatype error =
    AddrError string string
  | NumError string string num_err
  | OpError string

text \<open>\<open>*log.Logger\<close>: built by \<open>log.New(out, prefix, flag)\<close>; a nil logger is \<open>None\<close>.\<close>

datatype Writer = Stdout | Stderr | Custom nat

record Logger =
  out :: Writer
  prefix :: string
  flag :: int

definition log_New :: "Writer \<Rightarrow> string \<Rightarrow> int \<Rightarrow> Logger option" where
  "log_New w p f = Some \<lparr>out = w, prefix = p, flag = f\<rparr>"

text \<open>
  The two handlers are closures over the server built by \<open>jsHandler(s)\<close> and
  \<open>webSocketHandler(s)\<close>; their bodies are not part of server.go.
\<close>

datatype handler = jsHandler | webSocketHandler

type_synonym ServeMux = "(string \<times> handler) list"

text \<open>
  \<open>(*http.ServeMux).HandleFunc\<close>: registers the handler for the pattern; it panics on
  an empty pattern and on a pattern that is already registered.
\<close>

definition HandleFunc :: "string \<Rightarrow> handler \<Rightarrow> ServeMux \<Rightarrow> panic + ServeMux" where
  "HandleFunc pattern h mux =
     (if pattern = [] \<or> pattern \<in> fst ` set mux then Inl MuxRegistration
      else Inr (mux @ [(pattern, h)]))"

record http_Server =
  Addr :: string
  Handler :: ServeMux
  ErrorLog :: "Logger option"

section \<open>The connection registry and the connections\<close>

type_synonym conn_ref = nat
type_synonym chan_ref = nat
type_synonym server_ref = nat
type_synonym wsConn = nat

text \<open>
  \<open>connSet\<close> is created with \<open>make(connSet)\<close> and ranged over with one loop variable that
  has the fields of a \<open>*conn\<close>: a Go map keyed by \<open>*conn\<close>. The model is the list of its
  keys, without repetition, in the order a \<open>range\<close> visits them. Go leaves that order
  open, and no theorem below depends on it.
\<close>

type_synonym connSet = "conn_ref list"

definition make_connSet :: connSet where
  "make_connSet = []"

record conn =
  conn :: wsConn
  server :: server_ref
  handshake :: bool
  reloadChan :: chan_ref
  alertChan :: chan_ref
  closeChan :: chan_ref

section \<open>The server\<close>

record Server =
  name :: string
  host :: string
  port :: "16 word"
  server :: "http_Server option"
  conns :: connSet
  js :: string
  statusLog :: "Logger option"
  liveCSS :: bool

definition DefaultName :: string where
  "DefaultName = ''LiveReload''"

definition DefaultHost :: string where
  "DefaultHost = ''''"

definition DefaultPort :: "16 word" where
  "DefaultPort = 35729"

text \<open>
  \<open>New\<close>: the router starts empty, the server record is built around it, and the two
  routes are registered on the router the record points to. The result is Go's pair
  \<open>(*Server, error)\<close>.
\<close>

definition New :: "string \<Rightarrow> string \<Rightarrow> 16 word \<Rightarrow> panic + (Server option \<times> error option)" where
  "New nm h p =
     (let router = ([] :: ServeMux);
          logPrefix = ''['' @ nm @ ''] '';
          errLog = log_New Stderr logPrefix 0;
          stLog = log_New Stdout logPrefix 0
      in case HandleFunc ''/livereload.js'' jsHandler router of
           Inl e \<Rightarrow> Inl e
         | Inr router1 \<Rightarrow>
             (case HandleFunc ''/livereload'' webSocketHandler router1 of
                Inl e \<Rightarrow> Inl e
              | Inr router2 \<Rightarrow>
                  Inr (Some \<lparr>name = nm, host = h, port = p,
                         server = Some \<lparr>Addr = '''', Handler = router2, ErrorLog = errLog\<rparr>,
                         conns = make_connSet, js = '''', statusLog = stLog,
                         liveCSS = True\<rparr>,
                       None)))"

subsection \<open>Getters\<close>

definition Name :: "Server \<Rightarrow> string" where
  "Name s = name s"

definition Host :: "Server \<Rightarrow> string" where
  "Host s = host s"

definition Port :: "Server \<Rightarrow> 16 word" where
  "Port s = port s"

definition LiveCSS :: "Server \<Rightarrow> bool" where
  "LiveCSS s = liveCSS s"

definition StatusLog :: "Server \<Rightarrow> Logger option" where
  "StatusLog s = statusLog s"

text \<open>\<open>s.server\<close> is a pointer: reading through a nil one panics.\<close>

definition Server_ErrorLog :: "Server \<Rightarrow> panic + Logger option" where
  "Server_ErrorLog s =
     (case Server.server s of
        None \<Rightarrow> Inl NilPointerDereference
      | Some hs \<Rightarrow> Inr (ErrorLog hs))"

subsection \<open>Setters\<close>

definition SetLiveCSS :: "bool \<Rightarrow> Server \<Rightarrow> Server" where
  "SetLiveCSS n s = s\<lparr>liveCSS := n\<rparr>"

definition SetStatusLog :: "Logger option \<Rightarrow> Server \<Rightarrow> Server" where
  "SetStatusLog l s = s\<lparr>statusLog := l\<rparr>"

definition SetErrorLog :: "Logger option \<Rightarrow> Server \<Rightarrow> panic + Server" where
  "SetErrorLog l s =
     (case Server.server s of
        None \<Rightarrow> Inl NilPointerDereference
      | Some hs \<Rightarrow> Inr (s\<lparr>Server.server := Some (hs\<lparr>ErrorLog := l\<rparr>)\<rparr>))"

text \<open>
  The setters of server.go, as one type of calls: these three are all the methods of
  \<open>Server\<close> that assign a configuration field on request.
\<close>

datatype setter_call =
    CallSetLiveCSS bool
  | CallSetStatusLog "Logger option"
  | CallSetErrorLog "Logger option"

fun apply_setter :: "setter_call \<Rightarrow> Server \<Rightarrow> panic + Server" where
  "apply_setter (CallSetLiveCSS n) s = Inr (SetLiveCSS n s)"
| "apply_setter (CallSetStatusLog l) s = Inr (SetStatusLog l s)"
| "apply_setter (CallSetErrorLog l) s = SetErrorLog l s"

section \<open>Addresses and ports\<close>

text \<open>
  \<open>fmt.Sprintf("%d", u)\<close> for an unsigned integer: the digits are produced from the
  least significant one, each as \<open>byte('0' + u - next*10)\<close>, in front of what has been
  written so far.
\<close>

definition digit_char :: "nat \<Rightarrow> char" where
  "digit_char d = ''0123456789'' ! d"

function fmt_d :: "nat \<Rightarrow> string \<Rightarrow> string" where
  "fmt_d u buf =
     (if 10 \<le> u then (let next = u div 10 in fmt_d next (digit_char (u - next * 10) # buf))
      else digit_char u # buf)"
  by pat_completeness auto
termination
  by (relation "measure fst") auto

declare fmt_d.simps [simp del]

text \<open>
  \<open>IndexByteString\<close> and \<open>LastIndexByteString\<close>: the index of the first and of the last
  occurrence of a byte in a string, \<open>-1\<close> when there is none.
\<close>

fun IndexByte :: "string \<Rightarrow> char \<Rightarrow> int" where
  "IndexByte [] c = - 1"
| "IndexByte (x # xs) c =
     (if x = c then 0 else (let r = IndexByte xs c in if r < 0 then - 1 else r + 1))"

definition LastIndexByte :: "string \<Rightarrow> char \<Rightarrow> int" where
  "LastIndexByte s c =
     (let r = IndexByte (rev s) c in if r < 0 then - 1 else int (length s) - 1 - r)"

text \<open>
  \<open>net.SplitHostPort\<close> of Go's standard library, with its own index arithmetic:
  \<open>i\<close> is the last colon, \<open>e\<close> the first closing bracket, \<open>j\<close> and \<open>k\<close> the positions
  from which no further bracket may occur.
\<close>

definition missingPort :: string where
  "missingPort = ''missing port in address''"

definition tooManyColons :: string where
  "tooManyColons = ''too many colons in address''"

definition addrErr :: "string \<Rightarrow> string \<Rightarrow> error + (string \<times> string)" where
  "addrErr addr why = Inl (AddrError why addr)"

definition SplitHostPort_rest ::
  "string \<Rightarrow> int \<Rightarrow> string \<Rightarrow> nat \<Rightarrow> nat \<Rightarrow> error + (string \<times> string)" where
  "SplitHostPort_rest hostport i hst j k =
     (if 0 \<le> IndexByte (drop j hostport) (CHR ''['') then
        addrErr hostport (''unexpected '' @ [CHR 0x27, CHR ''['', CHR 0x27] @ '' in address'')
      else if 0 \<le> IndexByte (drop k hostport) (CHR '']'') then
        addrErr hostport (''unexpected '' @ [CHR 0x27, CHR '']'', CHR 0x27] @ '' in address'')
      else Inr (hst, drop (nat (i + 1)) hostport))"

definition SplitHostPort :: "string \<Rightarrow> error + (string \<times> string)" where
  "SplitHostPort hostport =
     (let i = LastIndexByte hostport (CHR '':'') in
      if i < 0 then addrErr hostport missingPort
      else if hostport ! 0 = CHR ''['' then
        (let e = IndexByte hostport (CHR '']'') in
         if e < 0 then
           addrErr hostport (''missing '' @ [CHR 0x27, CHR '']'', CHR 0x27] @ '' in address'')
         else if e + 1 = int (length hostport) then addrErr hostport missingPort
         else if e + 1 = i then
           SplitHostPort_rest hostport i (take (nat e - 1) (drop 1 hostport)) 1 (nat (e + 1))
         else if hostport ! nat (e + 1) = CHR '':'' then addrErr hostport tooManyColons
         else addrErr hostport missingPort)
      else
        (let hst = take (nat i) hostport in
         if 0 \<le> IndexByte hst (CHR '':'') then addrErr hostport tooManyColons
         else SplitHostPort_rest hostport i hst 0 0))"

text \<open>
  \<open>strconv.ParseUint(s, 10, 16)\<close>, the only way server.go calls it: the accumulator
  is a \<open>uint64\<close>, \<open>cutoff\<close> is \<open>maxUint64/10 + 1\<close> and \<open>maxVal\<close> is \<open>1<<16 - 1\<close>. A range
  error returns \<open>maxVal\<close> with the error, a syntax error returns 0.
\<close>

definition syntaxError :: "string \<Rightarrow> string \<Rightarrow> error" where
  "syntaxError fn str = NumError fn str ErrSyntax"

definition rangeError :: "string \<Rightarrow> string \<Rightarrow> error" where
  "rangeError fn str = NumError fn str ErrRange"

text \<open>
  One digit of the loop: \<open>c - '0'\<close> for a decimal digit, \<open>lower(c) - 'a' + 10\<close> for a
  letter, where \<open>lower(c)\<close> is \<open>c | ('x' - 'X')\<close>; no digit for any other byte.
\<close>

definition lower :: "nat \<Rightarrow> nat" where
  "lower c = or c 32"

definition digit_of :: "char \<Rightarrow> nat option" where
  "digit_of c =
     (let b = (of_char c :: nat) in
      if 48 \<le> b \<and> b \<le> 57 then Some (b - 48)
      else if 97 \<le> lower b \<and> lower b \<le> 122 then Some (lower b - 97 + 10)
      else None)"

fun ParseUint_loop :: "string \<Rightarrow> string \<Rightarrow> 64 word \<Rightarrow> 64 word \<times> error option" where
  "ParseUint_loop s0 [] n = (n, None)"
| "ParseUint_loop s0 (c # cs) n =
     (case digit_of c of
        None \<Rightarrow> (0, Some (syntaxError ''ParseUint'' s0))
      | Some d \<Rightarrow>
          if 10 \<le> d then (0, Some (syntaxError ''ParseUint'' s0))
          else if 18446744073709551615 div 10 + 1 \<le> n then
            (65535, Some (rangeError ''ParseUint'' s0))
          else
            (let n10 = n * 10; n1 = n10 + of_nat d in
             if n1 < n10 \<or> 65535 < n1 then (65535, Some (rangeError ''ParseUint'' s0))
             else ParseUint_loop s0 cs n1))"

definition ParseUint :: "string \<Rightarrow> 64 word \<times> error option" where
  "ParseUint s =
     (if s = [] then (0, Some (syntaxError ''ParseUint'' s)) else ParseUint_loop s s 0)"

text \<open>\<open>makeAddr\<close> converts \<open>uint16(x)\<close> to \<open>":x"\<close>; \<open>makePort\<close> converts \<open>":x"\<close> back.\<close>

definition makeAddr :: "16 word \<Rightarrow> string" where
  "makeAddr p = '':'' @ fmt_d (unat p) []"

definition makePort :: "string \<Rightarrow> 16 word \<times> error option" where
  "makePort addr =
     (case SplitHostPort addr of
        Inl err \<Rightarrow> (0, Some err)
      | Inr (_, portString) \<Rightarrow>
          (case ParseUint portString of
             (port64, Some err) \<Rightarrow> (0, Some err)
           | (port64, None) \<Rightarrow> (ucast port64, None)))"

text \<open>
  The words of the specification about ports, stated without the parser: a decimal
  integer fitting in 16 bits is a non-empty string of ASCII digits whose value is below
  \<open>2^16\<close>, and the port part of an address is what follows its last colon.
\<close>

definition is_digit :: "char \<Rightarrow> bool" where
  "is_digit c = (48 \<le> (of_char c :: nat) \<and> (of_char c :: nat) \<le> 57)"

fun dec_from :: "nat \<Rightarrow> string \<Rightarrow> nat" where
  "dec_from a [] = a"
| "dec_from a (c # cs) = dec_from (a * 10 + (of_char c - 48)) cs"

definition dec_value :: "string \<Rightarrow> nat" where
  "dec_value s = dec_from 0 s"

definition decimal16 :: "string \<Rightarrow> bool" where
  "decimal16 s = (s \<noteq> [] \<and> list_all is_digit s \<and> dec_value s < 65536)"

definition port_part :: "string \<Rightarrow> string" where
  "port_part addr = rev (takeWhile (\<lambda>c. c \<noteq> CHR '':'') (rev addr))"

section \<open>Effects: logging, channels, goroutines\<close>

text \<open>
  What the server does beyond changing its own fields is recorded, in order, as events:
  a line handed to a logger, a value sent on a channel, a goroutine started for a
  connection, and the hand-over of a listener to \<open>http.Server.Serve\<close>. A send on an
  unbuffered channel completes when the receiving goroutine takes the value; the
  scheduling of that hand-over is outside this sequential model, which records that the
  send was issued.
\<close>

datatype chan_type = ChanString | ChanCloseSignal

type_synonym listener = string

datatype event =
    LogOutput Logger string
  | Send chan_ref string
  | Go conn_ref
  | Serve listener

text \<open>
  The state a method of \<open>*Server\<close> works on: the server record \<open>srv\<close> found at address
  \<open>this\<close>, the allocated \<open>conn\<close> objects and channels (a reference is an index into
  the heap list, allocation appends), and the events so far.
\<close>

record state =
  this :: server_ref
  srv :: Server
  conn_heap :: "conn list"
  chan_heap :: "chan_type list"
  events :: "event list"

text \<open>\<open>fmt.Sprintln\<close> on strings: the operands separated by spaces, then a newline.\<close>

fun Sprintln :: "string list \<Rightarrow> string" where
  "Sprintln [] = [CHR 0x0A]"
| "Sprintln [x] = x @ [CHR 0x0A]"
| "Sprintln (x # y # zs) = x @ '' '' @ Sprintln (y # zs)"

text \<open>\<open>(*log.Logger).Println\<close>: calling it on a nil logger dereferences nil.\<close>

fun Logger_Println :: "Logger option \<Rightarrow> string list \<Rightarrow> state \<Rightarrow> panic + state" where
  "Logger_Println None msg st = Inl NilPointerDereference"
| "Logger_Println (Some l) msg st = Inr (st\<lparr>events := events st @ [LogOutput l (Sprintln msg)]\<rparr>)"

definition logStatus :: "string list \<Rightarrow> state \<Rightarrow> panic + state" where
  "logStatus msg st =
     (if statusLog (srv st) \<noteq> None then Logger_Println (statusLog (srv st)) msg st
      else Inr st)"


text \<open>\<open>ch <- v\<close> and \<open>make(chan T)\<close>.\<close>

definition chan_send :: "chan_ref \<Rightarrow> string \<Rightarrow> state \<Rightarrow> state" where
  "chan_send ch v st = st\<lparr>events := events st @ [Send ch v]\<rparr>"

definition make_chan :: "chan_type \<Rightarrow> state \<Rightarrow> chan_ref \<times> state" where
  "make_chan ty st = (length (chan_heap st), st\<lparr>chan_heap := chan_heap st @ [ty]\<rparr>)"

text \<open>Reading a field through a \<open>*conn\<close>; a reference to no object is the nil pointer.\<close>

definition deref :: "conn_ref \<Rightarrow> state \<Rightarrow> panic + conn" where
  "deref c st =
     (if c < length (conn_heap st) then Inr (conn_heap st ! c) else Inl NilPointerDereference)"

text \<open>\<open>for conn := range s.conns { body }\<close>: the body once for each key.\<close>

fun range_conns ::
  "(conn_ref \<Rightarrow> state \<Rightarrow> panic + state) \<Rightarrow> connSet \<Rightarrow> state \<Rightarrow> panic + state" where
  "range_conns body [] st = Inr st"
| "range_conns body (c # cs) st =
     (case body c st of Inl p \<Rightarrow> Inl p | Inr st' \<Rightarrow> range_conns body cs st')"

section \<open>Broadcast\<close>

text \<open>
  \<open>Reload\<close> sends a reload message to the client and \<open>Alert\<close> an alert message: the
  request is logged to the status logger, then the value is sent on the channel of every
  connection in the registry.
\<close>

definition Reload :: "string \<Rightarrow> state \<Rightarrow> panic + state" where
  "Reload file st =
     (case logStatus [''requesting reload: '' @ file] st of
        Inl p \<Rightarrow> Inl p
      | Inr st1 \<Rightarrow>
          range_conns
            (\<lambda>c st2. case deref c st2 of
                        Inl p \<Rightarrow> Inl p
                      | Inr co \<Rightarrow> Inr (chan_send (reloadChan co) file st2))
            (conns (srv st1)) st1)"

definition Alert :: "string \<Rightarrow> state \<Rightarrow> panic + state" where
  "Alert msg st =
     (case logStatus [''requesting alert: '' @ msg] st of
        Inl p \<Rightarrow> Inl p
      | Inr st1 \<Rightarrow>
          range_conns
            (\<lambda>c st2. case deref c st2 of
                        Inl p \<Rightarrow> Inl p
                      | Inr co \<Rightarrow> Inr (chan_send (alertChan co) msg st2))
            (conns (srv st1)) st1)"

section \<open>New connections\<close>

text \<open>
  Modelled from the spec: the method \<open>add\<close> of \<open>connSet\<close>, which server.go calls and does
  not define. The specification's \<open>Add(connection)\<close> inserts unconditionally into a set
  keyed by identity.
\<close>

definition connSet_add :: "conn_ref \<Rightarrow> connSet \<Rightarrow> connSet" where
  "connSet_add c cs = List.insert c cs"

text \<open>
  Modelled from the spec: the method \<open>remove\<close> of \<open>connSet\<close>. The specification's
  \<open>Remove(connection)\<close> deletes if present; removing an absent connection is a no-op.
\<close>

definition connSet_remove :: "conn_ref \<Rightarrow> connSet \<Rightarrow> connSet" where
  "connSet_remove c cs = removeAll c cs"

text \<open>
  \<open>newConn\<close>: the three channels are made, the \<open>conn\<close> is allocated with the socket,
  the pointer to the server and \<open>handshake\<close> false, it is added to the registry, and
  its goroutine is started.
\<close>

definition newConn :: "wsConn \<Rightarrow> state \<Rightarrow> state" where
  "newConn ws st =
     (let (rc, st1) = make_chan ChanString st;
          (ac, st2) = make_chan ChanString st1;
          (cc, st3) = make_chan ChanCloseSignal st2;
          c = length (conn_heap st3);
          st4 = st3\<lparr>conn_heap := conn_heap st3 @
                  [\<lparr>conn = ws, server = this st3, handshake = False,
                    reloadChan = rc, alertChan = ac, closeChan = cc\<rparr>]\<rparr>;
          st5 = st4\<lparr>srv := (srv st4)\<lparr>conns := connSet_add c (conns (srv st4))\<rparr>\<rparr>
      in st5\<lparr>events := events st5 @ [Go c]\<rparr>)"

section \<open>Listening\<close>

text \<open>\<open>(*Server).Addr\<close>: \<open>fmt.Sprintf("%s:%d", s.Host(), s.Port())\<close>.\<close>

definition Server_Addr :: "Server \<Rightarrow> string" where
  "Server_Addr s = Host s @ '':'' @ fmt_d (unat (Port s)) []"

text \<open>\<open>strings.Split(s, sep)\<close> for a separator of one character.\<close>

fun Split :: "string \<Rightarrow> char \<Rightarrow> string list" where
  "Split [] sep = [[]]"
| "Split (c # cs) sep =
     (if c = sep then [] # Split cs sep
      else (case Split cs sep of [] \<Rightarrow> [[c]] | w # ws \<Rightarrow> (c # w) # ws))"

text \<open>
  What \<open>ListenAndServe\<close> takes from outside server.go: the result of
  \<open>net.Listen(network, address)\<close> (a listener is known by the string of its address), the
  text \<open>fmt.Sprintf(js, host, port)\<close> for the constant \<open>js\<close>, which server.go uses and
  does not define, and the error with which \<open>Serve\<close> returns on a listener, \<open>None\<close> when it
  never returns.
\<close>

record net_env =
  net_Listen :: "string \<Rightarrow> string \<Rightarrow> error + listener"
  js_Sprintf :: "string \<Rightarrow> 16 word \<Rightarrow> string"
  Serve_returns :: "listener \<Rightarrow> error option"

datatype outcome = Return "error option" | NoReturn

definition assigned_port :: "listener \<Rightarrow> Server \<Rightarrow> panic + Server" where
  "assigned_port l s =
     (if port s = 0 then
        (let addr = Split l (CHR '':'') in
         if length addr \<le> 1 then Inl IndexOutOfRange
         else (let (port64, _) = ParseUint (addr ! 1)
               in Inr (s\<lparr>host := addr ! 0, port := ucast port64\<rparr>)))
      else Inr s)"

definition ListenAndServe :: "net_env \<Rightarrow> state \<Rightarrow> panic + (outcome \<times> state)" where
  "ListenAndServe env st =
     (case net_Listen env ''tcp'' (Server_Addr (srv st)) of
        Inl err \<Rightarrow> Inr (Return (Some err), st)
      | Inr l \<Rightarrow>
          (case assigned_port l (srv st) of
             Inl p \<Rightarrow> Inl p
           | Inr s1 \<Rightarrow>
               (let s2 = s1\<lparr>js := js_Sprintf env (host s1) (port s1)\<rparr>
                in case Server.server s2 of
                     None \<Rightarrow> Inl NilPointerDereference
                   | Some hs \<Rightarrow>
                       (case logStatus [''listening on '' @ Addr hs] (st\<lparr>srv := s2\<rparr>) of
                          Inl p \<Rightarrow> Inl p
                        | Inr st3 \<Rightarrow>
                            Inr (case Serve_returns env l of
                                   None \<Rightarrow> NoReturn
                                 | Some err \<Rightarrow> Return (Some err),
                                 st3\<lparr>events := events st3 @ [Serve l]\<rparr>)))))"

section \<open>Well-formed states and sequences of calls\<close>

definition chans_of :: "conn \<Rightarrow> chan_ref list" where
  "chans_of co = [reloadChan co, alertChan co, closeChan co]"

text \<open>
  What Go's allocation guarantees: the registry holds each connection once, every
  registered reference points to an allocated object, and the channels made for the
  connections are allocated and pairwise different.
\<close>

definition wf :: "state \<Rightarrow> bool" where
  "wf st =
     (distinct (conns (srv st))
      \<and> list_all (\<lambda>c. c < length (conn_heap st)) (conns (srv st))
      \<and> distinct (concat (map chans_of (conn_heap st)))
      \<and> list_all (\<lambda>ch. ch < length (chan_heap st)) (concat (map chans_of (conn_heap st))))"

text \<open>A server with no connection allocated yet and nothing done.\<close>

definition init_state :: "server_ref \<Rightarrow> Server \<Rightarrow> state" where
  "init_state a s = \<lparr>this = a, srv = s, conn_heap = [], chan_heap = [], events = []\<rparr>"

text \<open>The values sent on one channel, in order, among some events.\<close>

fun sends_on :: "chan_ref \<Rightarrow> event list \<Rightarrow> string list" where
  "sends_on ch [] = []"
| "sends_on ch (Send ch' v # es) = (if ch' = ch then v # sends_on ch es else sends_on ch es)"
| "sends_on ch (_ # es) = sends_on ch es"

text \<open>The lines handed to loggers among some events, and the events that are one of the two.\<close>

fun log_lines :: "event list \<Rightarrow> (Logger \<times> string) list" where
  "log_lines [] = []"
| "log_lines (LogOutput l t # es) = (l, t) # log_lines es"
| "log_lines (_ # es) = log_lines es"

fun is_log_or_send :: "event \<Rightarrow> bool" where
  "is_log_or_send (LogOutput l t) = True"
| "is_log_or_send (Send ch v) = True"
| "is_log_or_send _ = False"

text \<open>The events a call added to the ones before it.\<close>

definition new_events :: "state \<Rightarrow> state \<Rightarrow> event list" where
  "new_events st st' = drop (length (events st)) (events st')"

text \<open>
  Modelled from the spec: the Closing transition of a connection, whose code is not in
  server.go. Of its effects (release the socket, deregister from the registry, drop
  pending queue entries, become Closed) the one on the server's state is the call of
  \<open>Remove\<close>.
\<close>

definition closing :: "conn_ref \<Rightarrow> state \<Rightarrow> state" where
  "closing c st = st\<lparr>srv := (srv st)\<lparr>conns := connSet_remove c (conns (srv st))\<rparr>\<rparr>"

text \<open>
  The calls that change or use the registry, and the setters, as values, so that
  statements can range over every sequence of them. \<open>CallClosing\<close> is the Closing
  transition of a connection.
\<close>

datatype call =
    CallReload string
  | CallAlert string
  | CallNewConn wsConn
  | CallClosing conn_ref
  | CallSetter setter_call

fun exec :: "call \<Rightarrow> state \<Rightarrow> panic + state" where
  "exec (CallReload file) st = Reload file st"
| "exec (CallAlert msg) st = Alert msg st"
| "exec (CallNewConn ws) st = Inr (newConn ws st)"
| "exec (CallClosing c) st = Inr (closing c st)"
| "exec (CallSetter f) st =
     (case apply_setter f (srv st) of Inl p \<Rightarrow> Inl p | Inr s \<Rightarrow> Inr (st\<lparr>srv := s\<rparr>))"

fun run :: "call list \<Rightarrow> state \<Rightarrow> panic + state" where
  "run [] st = Inr st"
| "run (x # xs) st = (case exec x st of Inl p \<Rightarrow> Inl p | Inr st' \<Rightarrow> run xs st')"

section \<open>The connection state machine\<close>

text \<open>
  Modelled from the spec: the message codec and the state machine of a connection
  (the methods of \<open>conn\<close> that \<open>go c.start()\<close> runs), none of which is in server.go.
  Frames are kept as the commands of the wire protocol, not as JSON text.
\<close>

datatype frame =
    HelloFrame "string list" string
  | ReloadFrame string bool
  | AlertFrame string

text \<open>
  Modelled from the spec: \<open>DecodeIncoming\<close> recognises \<open>hello\<close> with the protocols the
  client supports; any other command and any malformed payload is a decode error.
\<close>

datatype decode_error = UnknownCommand | MalformedPayload

datatype decoded = Hello "string list" | DecodeError decode_error

text \<open>
  Modelled from the spec: the three encoders. \<open>proto\<close> is the single protocol version
  the server supports, whose identifier the specification does not spell out.
\<close>

definition EncodeHello :: "string \<Rightarrow> string \<Rightarrow> frame" where
  "EncodeHello proto serverName = HelloFrame [proto] serverName"

definition EncodeReload :: "string \<Rightarrow> bool \<Rightarrow> frame" where
  "EncodeReload file css = ReloadFrame file css"

definition EncodeAlert :: "string \<Rightarrow> frame" where
  "EncodeAlert message = AlertFrame message"

fun is_command_frame :: "frame \<Rightarrow> bool" where
  "is_command_frame (HelloFrame ps n) = False"
| "is_command_frame (ReloadFrame f b) = True"
| "is_command_frame (AlertFrame m) = True"

datatype conn_state = Connecting | AwaitingHandshake | Live | Closing | Closed

record Connection =
  cstate :: conn_state
  handshakeComplete :: bool

text \<open>
  Modelled from the spec: what can happen to a connection. \<open>Enter\<close> is the step a state
  takes by itself on entry (Connecting and Closing); the others are an inbound frame, a
  read error or close of the socket, an item received from the reload or the alert
  queue, and the close signal.
\<close>

datatype conn_event =
    Enter
  | InboundFrame decoded
  | SocketError
  | ReloadRequest string
  | AlertRequest string
  | CloseSignal

datatype action = WriteFrame frame | ReleaseSocket | Deregister

text \<open>
  Modelled from the spec: the connection the server facade constructs is in state
  Connecting; its flag is the \<open>handshake\<close> field of the \<open>conn\<close> that \<open>newConn\<close> built.
\<close>

definition init_Connection :: "conn \<Rightarrow> Connection" where
  "init_Connection co = \<lparr>cstate = Connecting, handshakeComplete = handshake co\<rparr>"

text \<open>
  Modelled from the spec, section 4.2: one step of the machine. \<open>s\<close> is the server
  configuration read when a message is built, \<open>ok\<close> tells whether a write to the socket
  succeeds at this step. The result is the new connection and what the step did.
\<close>

fun conn_step ::
  "string \<Rightarrow> Server \<Rightarrow> bool \<Rightarrow> conn_event \<Rightarrow> Connection \<Rightarrow> Connection \<times> action list" where
  "conn_step proto s ok ev K =
     (case cstate K of
        Connecting \<Rightarrow>
          (case ev of
             Enter \<Rightarrow> (K\<lparr>cstate := AwaitingHandshake\<rparr>, [])
           | _ \<Rightarrow> (K, []))
      | AwaitingHandshake \<Rightarrow>
          (case ev of
             InboundFrame (Hello ps) \<Rightarrow>
               if proto \<in> set ps \<and> ok
               then (K\<lparr>cstate := Live, handshakeComplete := True\<rparr>,
                     [WriteFrame (EncodeHello proto (Name s))])
               else (K\<lparr>cstate := Closing\<rparr>, [])
           | InboundFrame (DecodeError e) \<Rightarrow> (K\<lparr>cstate := Closing\<rparr>, [])
           | SocketError \<Rightarrow> (K\<lparr>cstate := Closing\<rparr>, [])
           | CloseSignal \<Rightarrow> (K\<lparr>cstate := Closing\<rparr>, [])
           | _ \<Rightarrow> (K, []))
      | Live \<Rightarrow>
          (case ev of
             InboundFrame (DecodeError MalformedPayload) \<Rightarrow> (K\<lparr>cstate := Closing\<rparr>, [])
           | InboundFrame _ \<Rightarrow> (K, [])
           | SocketError \<Rightarrow> (K\<lparr>cstate := Closing\<rparr>, [])
           | ReloadRequest file \<Rightarrow>
               if ok then (K, [WriteFrame (EncodeReload file (LiveCSS s))])
               else (K\<lparr>cstate := Closing\<rparr>, [])
           | AlertRequest message \<Rightarrow>
               if ok then (K, [WriteFrame (EncodeAlert message)])
               else (K\<lparr>cstate := Closing\<rparr>, [])
           | CloseSignal \<Rightarrow> (K\<lparr>cstate := Closing\<rparr>, [])
           | Enter \<Rightarrow> (K, []))
      | Closing \<Rightarrow>
          (case ev of
             Enter \<Rightarrow> (K\<lparr>cstate := Closed\<rparr>, [ReleaseSocket, Deregister])
           | _ \<Rightarrow> (K, []))
      | Closed \<Rightarrow> (K, []))"

text \<open>
  A run of the machine: each input is an event with the server configuration and the
  state of the socket at that moment; the actions are collected in order.
\<close>

fun conn_run ::
  "string \<Rightarrow> (conn_event \<times> Server \<times> bool) list \<Rightarrow> Connection \<Rightarrow> Connection \<times> action list" where
  "conn_run proto [] K = (K, [])"
| "conn_run proto ((ev, s, ok) # ins) K =
     (let (K1, acts1) = conn_step proto s ok ev K;
          (K2, acts2) = conn_run proto ins K1
      in (K2, acts1 @ acts2))"

text \<open>The system-wide effect of what a connection with reference \<open>c\<close> did.\<close>

fun perform :: "conn_ref \<Rightarrow> action \<Rightarrow> state \<Rightarrow> state" where
  "perform c Deregister st = closing c st"
| "perform c _ st = st"

section \<open>Statements about broadcasts and runs\<close>

text \<open>The status line a broadcast hands to the status logger, if there is one.\<close>

definition status_line :: "Server \<Rightarrow> string \<Rightarrow> event list" where
  "status_line s text =
     (case statusLog s of None \<Rightarrow> [] | Some l \<Rightarrow> [LogOutput l (Sprintln [text])])"

text \<open>
  What a broadcast of \<open>v\<close> on the channels \<open>sel\<close> does between \<open>st\<close> and \<open>st'\<close>: the
  server and the heaps are unchanged; the new events are log lines and sends only;
  each registered connection has exactly the one send of \<open>v\<close> on its channel \<open>sel\<close> and
  none on its other channels; no channel of an allocated connection outside the
  registry has a send.
\<close>

definition fan_out :: "(conn \<Rightarrow> chan_ref) \<Rightarrow> string \<Rightarrow> state \<Rightarrow> state \<Rightarrow> bool" where
  "fan_out sel v st st' =
     (srv st' = srv st \<and> conn_heap st' = conn_heap st \<and> chan_heap st' = chan_heap st
      \<and> list_all is_log_or_send (new_events st st')
      \<and> (\<forall>c \<in> set (conns (srv st)). \<forall>ch \<in> set (chans_of (conn_heap st ! c)).
            sends_on ch (new_events st st') = (if ch = sel (conn_heap st ! c) then [v] else []))
      \<and> (\<forall>c < length (conn_heap st). c \<notin> set (conns (srv st)) \<longrightarrow>
            (\<forall>ch \<in> set (chans_of (conn_heap st ! c)). sends_on ch (new_events st st') = [])))"

text \<open>
  Connection \<open>c\<close>, the object \<open>co\<close>, is allocated and not registered, in a well-formed
  state of a server whose \<open>http.Server\<close> pointer is not nil.
\<close>

definition absent :: "conn_ref \<Rightarrow> conn \<Rightarrow> state \<Rightarrow> bool" where
  "absent c co st =
     (wf st \<and> Server.server (srv st) \<noteq> None \<and> c < length (conn_heap st)
      \<and> conn_heap st ! c = co \<and> c \<notin> set (conns (srv st)))"

text \<open>
  Among the actions of a connection, in order, every reload or alert frame comes after
  a hello frame; \<open>seen\<close> tells whether a hello frame has been written before.
\<close>

fun commands_gated :: "bool \<Rightarrow> action list \<Rightarrow> bool" where
  "commands_gated seen [] = True"
| "commands_gated seen (WriteFrame f # as) =
     (if is_command_frame f then seen \<and> commands_gated seen as else commands_gated True as)"
| "commands_gated seen (ReleaseSocket # as) = commands_gated seen as"
| "commands_gated seen (Deregister # as) = commands_gated seen as"

section \<open>Concrete servers, states and inputs\<close>

text \<open>The pointer \<open>New\<close> returns, nil if it panicked.\<close>

definition New_server :: "string \<Rightarrow> string \<Rightarrow> 16 word \<Rightarrow> Server option" where
  "New_server nm h p = (case New nm h p of Inl e \<Rightarrow> None | Inr (s, err) \<Rightarrow> s)"

text \<open>
  The default server after two upgrades; the same with both loggers set to nil; a
  network on which every bind fails; and the events of one connection: two queued
  commands before the handshake, the handshake, two commands after it.
\<close>

definition example_state :: state where
  "example_state =
     newConn 8 (newConn 7 (init_state 0 (the (New_server DefaultName DefaultHost DefaultPort))))"


definition refusing_env :: net_env where
  "refusing_env =
     \<lparr>net_Listen = (\<lambda>network address. Inl (OpError ''listen tcp: address already in use'')),
      js_Sprintf = (\<lambda>h p. []),
      Serve_returns = (\<lambda>l. None)\<rparr>"

definition example_inputs :: "(conn_event \<times> Server \<times> bool) list" where
  "example_inputs =
     [(ReloadRequest ''early.css'', srv example_state, True),
      (Enter, srv example_state, True),
      (AlertRequest ''early'', srv example_state, True),
      (InboundFrame (Hello [''v6'', ''v7'']), srv example_state, True),
      (ReloadRequest ''index.html'', srv example_state, True),
      (AlertRequest ''boom'', srv example_state, True)]"

section \<open>Construction\<close>

text \<open>
  C9. For every name, host and port, \<open>New\<close> does not panic and returns a non-nil server
  with a nil error; on that server \<open>Name\<close>, \<open>Host\<close> and \<open>Port\<close> return the arguments,
  the registry is empty and \<open>LiveCSS\<close> is true.
\<close>

theorem New_constructs:
  "\<exists>s. New nm h p = Inr (Some s, None) \<and> Name s = nm \<and> Host s = h \<and> Port s = p
       \<and> conns s = [] \<and> LiveCSS s = True"
  by (simp add: New_def Let_def HandleFunc_def Name_def Host_def Port_def LiveCSS_def
      make_connSet_def log_New_def)

section \<open>Address helpers: round trip and rejection\<close>

lemma IndexByte_eq:
  "IndexByte s c = (if c \<in> set s then int (length (takeWhile (\<lambda>x. x \<noteq> c) s)) else - 1)"
  by (induction s) (auto simp: Let_def)

lemma LastIndexByte_eq:
  "LastIndexByte s c =
     (if c \<in> set s then int (length s) - 1 - int (length (takeWhile (\<lambda>x. x \<noteq> c) (rev s)))
      else - 1)"
  by (simp add: LastIndexByte_def IndexByte_eq Let_def)

lemma takeWhile_less:
  "c \<in> set s \<Longrightarrow> length (takeWhile (\<lambda>x. x \<noteq> c) s) < length s"
  by (induction s) auto

lemma takeWhile_rev_less:
  assumes "c \<in> set s"
  shows "length (takeWhile (\<lambda>x. x \<noteq> c) (rev s)) < length s"
  using takeWhile_less [of c "rev s"] assms by simp

lemma drop_last_index:
  assumes "c \<in> set s"
  shows "drop (nat (LastIndexByte s c + 1)) s = rev (takeWhile (\<lambda>x. x \<noteq> c) (rev s))"
proof -
  let ?t = "takeWhile (\<lambda>x. x \<noteq> c) (rev s)"
  have lt: "length ?t < length s" using assms by (rule takeWhile_rev_less)
  have "nat (LastIndexByte s c + 1) = length s - length ?t"
    using assms lt by (simp add: LastIndexByte_eq)
  moreover have "drop (length s - length ?t) s = rev (take (length ?t) (rev s))"
    by (simp add: rev_take)
  moreover have "take (length ?t) (rev s) = ?t"
    by (metis takeWhile_eq_take)
  ultimately show ?thesis by simp
qed

lemma SplitHostPort_no_colon:
  "CHR '':'' \<notin> set addr \<Longrightarrow> \<exists>e. SplitHostPort addr = Inl e"
  by (simp add: SplitHostPort_def LastIndexByte_eq addrErr_def)

lemma SplitHostPort_rest_port:
  "SplitHostPort_rest addr i hst j k = Inr (h, p) \<Longrightarrow> p = drop (nat (i + 1)) addr"
  by (simp add: SplitHostPort_rest_def addrErr_def split: if_splits)

lemma SplitHostPort_drop:
  assumes "SplitHostPort addr = Inr (h, p)"
  shows "p = drop (nat (LastIndexByte addr (CHR '':'') + 1)) addr"
proof -
  let ?i = "LastIndexByte addr (CHR '':'')"
  let ?e = "IndexByte addr (CHR '']'')"
  show ?thesis
  proof (cases "addr ! 0 = CHR ''[''")
    case True
    with assms have "SplitHostPort_rest addr ?i (take (nat ?e - 1) (drop 1 addr)) 1 (nat (?e + 1))
        = Inr (h, p)"
      by (simp add: SplitHostPort_def addrErr_def Let_def split: if_splits)
    then show ?thesis by (rule SplitHostPort_rest_port)
  next
    case False
    with assms have "SplitHostPort_rest addr ?i (take (nat ?i) addr) 0 0 = Inr (h, p)"
      by (simp add: SplitHostPort_def addrErr_def Let_def split: if_splits)
    then show ?thesis by (rule SplitHostPort_rest_port)
  qed
qed

lemma SplitHostPort_port:
  assumes "SplitHostPort addr = Inr (h, p)"
  shows "p = port_part addr"
proof -
  have mem: "CHR '':'' \<in> set addr"
    using assms SplitHostPort_no_colon [of addr] by auto
  show ?thesis
    using SplitHostPort_drop [OF assms] drop_last_index [OF mem] by (simp add: port_part_def)
qed

text \<open>The digits of the specification are the ten ASCII digits.\<close>

lemma is_digit_chars: "is_digit c \<longleftrightarrow> c \<in> set ''0123456789''"
proof
  assume "c \<in> set ''0123456789''"
  then show "is_digit c" by (auto simp: is_digit_def)
next
  assume d: "is_digit c"
  define n where "n = (of_char c :: nat)"
  have "48 \<le> n" "n \<le> 57" using d by (simp_all add: is_digit_def n_def)
  then have "n = 48 \<or> n = 49 \<or> n = 50 \<or> n = 51 \<or> n = 52 \<or> n = 53 \<or> n = 54 \<or> n = 55
      \<or> n = 56 \<or> n = 57"
    by arith
  then have "n = of_char (CHR ''0'') \<or> n = of_char (CHR ''1'') \<or> n = of_char (CHR ''2'')
      \<or> n = of_char (CHR ''3'') \<or> n = of_char (CHR ''4'') \<or> n = of_char (CHR ''5'')
      \<or> n = of_char (CHR ''6'') \<or> n = of_char (CHR ''7'') \<or> n = of_char (CHR ''8'')
      \<or> n = of_char (CHR ''9'')"
    by simp
  then have "c = CHR ''0'' \<or> c = CHR ''1'' \<or> c = CHR ''2'' \<or> c = CHR ''3'' \<or> c = CHR ''4''
      \<or> c = CHR ''5'' \<or> c = CHR ''6'' \<or> c = CHR ''7'' \<or> c = CHR ''8'' \<or> c = CHR ''9''"
    unfolding n_def by (simp only: of_char_eq_iff)
  then show "c \<in> set ''0123456789''" by auto
qed

lemma digit_of_digit:
  "is_digit c \<Longrightarrow> digit_of c = Some (of_char c - 48) \<and> (of_char c :: nat) - 48 < 10"
  by (auto simp: is_digit_def digit_of_def Let_def)

lemma digit_of_other:
  "\<not> is_digit c \<Longrightarrow> digit_of c = None \<or> (\<exists>d. digit_of c = Some d \<and> 10 \<le> d)"
  by (auto simp: is_digit_def digit_of_def Let_def)

lemma dec_from_mono: "a \<le> dec_from a cs"
proof (induction cs arbitrary: a)
  case Nil
  show ?case by simp
next
  case (Cons c cs)
  have "a \<le> a * 10 + (of_char c - 48)" by simp
  also have "\<dots> \<le> dec_from (a * 10 + (of_char c - 48)) cs" by (rule Cons.IH)
  finally show ?case by simp
qed

lemma word64_small_less:
  "a < 2 ^ 64 \<Longrightarrow> b < 2 ^ 64 \<Longrightarrow> ((of_nat a :: 64 word) < of_nat b) = (a < b)"
  by (simp add: word_less_nat_alt unat_of_nat)

lemma word64_small_le:
  "a < 2 ^ 64 \<Longrightarrow> b < 2 ^ 64 \<Longrightarrow> ((of_nat a :: 64 word) \<le> of_nat b) = (a \<le> b)"
  by (simp add: word_le_nat_alt unat_of_nat)

lemma ParseUint_loop_step:
  assumes m: "m \<le> 65535" and d: "d < 10" and c: "digit_of c = Some d"
  shows "ParseUint_loop s0 (c # cs) (of_nat m) =
     (if 65535 < m * 10 + d then (65535, Some (rangeError ''ParseUint'' s0))
      else ParseUint_loop s0 cs (of_nat (m * 10 + d)))"
proof -
  have cut: "\<not> (18446744073709551615 div 10 + 1 \<le> (of_nat m :: 64 word))"
    using m word64_small_le [of 1844674407370955162 m] by simp
  have n10: "(of_nat m :: 64 word) * 10 = of_nat (m * 10)" by simp
  have n1: "(of_nat (m * 10) :: 64 word) + of_nat d = of_nat (m * 10 + d)" by simp
  have nolt: "\<not> ((of_nat (m * 10 + d) :: 64 word) < of_nat (m * 10))"
    using m d word64_small_less [of "m * 10 + d" "m * 10"] by simp
  have big: "((65535 :: 64 word) < of_nat (m * 10 + d)) = (65535 < m * 10 + d)"
    using m d word64_small_less [of 65535 "m * 10 + d"] by simp
  show ?thesis
    using d cut nolt big
    by (simp only: ParseUint_loop.simps c option.case Let_def n10 n1 not_le [symmetric] if_False if_True simp_thms split: if_splits)
qed

lemma ParseUint_loop_ok:
  "m \<le> 65535 \<Longrightarrow> list_all is_digit cs \<Longrightarrow> dec_from m cs \<le> 65535 \<Longrightarrow>
   ParseUint_loop s0 cs (of_nat m) = (of_nat (dec_from m cs), None)"
proof (induction cs arbitrary: m)
  case Nil
  then show ?case by simp
next
  case (Cons c cs)
  let ?d = "(of_char c :: nat) - 48"
  have dig: "digit_of c = Some ?d" "?d < 10"
    using Cons.prems(2) digit_of_digit [of c] by simp_all
  have "m * 10 + ?d \<le> dec_from (m * 10 + ?d) cs" by (rule dec_from_mono)
  with Cons.prems(3) have small: "m * 10 + ?d \<le> 65535" by simp
  have "ParseUint_loop s0 (c # cs) (of_nat m) = ParseUint_loop s0 cs (of_nat (m * 10 + ?d))"
    using ParseUint_loop_step [OF Cons.prems(1) dig(2) dig(1)] small by simp
  also have "\<dots> = (of_nat (dec_from (m * 10 + ?d) cs), None)"
    using Cons.IH [OF small] Cons.prems(2,3) by simp
  finally show ?case by simp
qed

lemma ParseUint_loop_err:
  "m \<le> 65535 \<Longrightarrow> \<not> (list_all is_digit cs \<and> dec_from m cs \<le> 65535) \<Longrightarrow>
   \<exists>v e. ParseUint_loop s0 cs (of_nat m) = (v, Some e)"
proof (induction cs arbitrary: m)
  case Nil
  then show ?case by simp
next
  case (Cons c cs)
  show ?case
  proof (cases "is_digit c")
    case False
    then show ?thesis using digit_of_other [of c] by auto
  next
    case True
    let ?d = "(of_char c :: nat) - 48"
    have dig: "digit_of c = Some ?d" "?d < 10"
      using True digit_of_digit [of c] by simp_all
    note step = ParseUint_loop_step [OF Cons.prems(1) dig(2) dig(1), of s0 cs]
    show ?thesis
    proof (cases "65535 < m * 10 + ?d")
      case True
      then show ?thesis using step by simp
    next
      case False
      then have small: "m * 10 + ?d \<le> 65535" by simp
      have "\<not> (list_all is_digit cs \<and> dec_from (m * 10 + ?d) cs \<le> 65535)"
        using Cons.prems(2) True by simp
      from Cons.IH [OF small this] show ?thesis using step False by simp
    qed
  qed
qed

lemma ParseUint_decimal16:
  "decimal16 s \<Longrightarrow> ParseUint s = (of_nat (dec_value s), None)"
  using ParseUint_loop_ok [of 0 s s]
  by (simp add: decimal16_def ParseUint_def dec_value_def)

lemma ParseUint_not_decimal16:
  "\<not> decimal16 s \<Longrightarrow> \<exists>v e. ParseUint s = (v, Some e)"
  using ParseUint_loop_err [of 0 s s]
  by (auto simp: decimal16_def ParseUint_def dec_value_def)

lemma is_digit_digit_char: "d < 10 \<Longrightarrow> is_digit (digit_char d)"
  unfolding digit_char_def is_digit_def
  by (auto simp: less_Suc_eq numeral_eq_Suc)

lemma of_char_digit_char: "d < 10 \<Longrightarrow> (of_char (digit_char d) :: nat) = 48 + d"
  unfolding digit_char_def
  by (auto simp: less_Suc_eq numeral_eq_Suc)

lemma fmt_d_digits: "list_all is_digit buf \<Longrightarrow> list_all is_digit (fmt_d u buf)"
proof (induction u buf rule: fmt_d.induct)
  case (1 u buf)
  show ?case
  proof (cases "10 \<le> u")
    case True
    have "u - u div 10 * 10 < 10" by presburger
    then have "list_all is_digit (digit_char (u - u div 10 * 10) # buf)"
      using "1.prems" by (simp add: is_digit_digit_char)
    from "1.IH" [OF True refl this] show ?thesis
      using True by (subst fmt_d.simps) (simp add: Let_def)
  next
    case False
    then show ?thesis
      using "1.prems" by (subst fmt_d.simps) (simp add: is_digit_digit_char)
  qed
qed

lemma fmt_d_value: "dec_from 0 (fmt_d u buf) = dec_from u buf"
proof (induction u buf rule: fmt_d.induct)
  case (1 u buf)
  show ?case
  proof (cases "10 \<le> u")
    case True
    have lt: "u - u div 10 * 10 < 10" by presburger
    have "dec_from 0 (fmt_d u buf)
        = dec_from 0 (fmt_d (u div 10) (digit_char (u - u div 10 * 10) # buf))"
      using True by (subst fmt_d.simps) (simp add: Let_def)
    also have "\<dots> = dec_from (u div 10) (digit_char (u - u div 10 * 10) # buf)"
      using "1.IH" [OF True refl] .
    also have "\<dots> = dec_from u buf"
      using lt by (simp add: of_char_digit_char)
    finally show ?thesis .
  next
    case False
    then show ?thesis
      by (subst fmt_d.simps) (simp add: of_char_digit_char)
  qed
qed

lemma fmt_d_nonempty: "fmt_d u buf \<noteq> []"
proof (induction u buf rule: fmt_d.induct)
  case (1 u buf)
  show ?case
  proof (cases "10 \<le> u")
    case True
    from "1.IH" [OF True refl] show ?thesis
      using True by (subst fmt_d.simps) (simp add: Let_def)
  next
    case False
    then show ?thesis by (subst fmt_d.simps) simp
  qed
qed

lemma decimal16_fmt_d: "u < 65536 \<Longrightarrow> decimal16 (fmt_d u [])"
  by (simp add: decimal16_def fmt_d_nonempty fmt_d_digits dec_value_def fmt_d_value)

lemma dec_value_fmt_d: "dec_value (fmt_d u []) = u"
  by (simp add: dec_value_def fmt_d_value)

lemma is_digit_not_special:
  "is_digit c \<Longrightarrow> c \<noteq> CHR '':'' \<and> c \<noteq> CHR ''['' \<and> c \<noteq> CHR '']''"
  by (auto simp: is_digit_def)

lemma SplitHostPort_colon_digits:
  assumes "list_all is_digit ds"
  shows "SplitHostPort (CHR '':'' # ds) = Inr ([], ds)"
proof -
  have free: "CHR '':'' \<notin> set ds" "CHR ''['' \<notin> set ds" "CHR '']'' \<notin> set ds"
    using assms is_digit_not_special by (auto simp: list_all_iff)
  have "takeWhile (\<lambda>x. x \<noteq> CHR '':'') (rev ds @ [CHR '':'']) = rev ds"
    using free(1) by (subst takeWhile_append2) auto
  then have i: "LastIndexByte (CHR '':'' # ds) (CHR '':'') = 0"
    by (simp add: LastIndexByte_eq)
  show ?thesis
    using free by (simp add: SplitHostPort_def i SplitHostPort_rest_def IndexByte_eq)
qed

text \<open>
  C10. The address helpers round-trip: for every 16-bit port \<open>p\<close>,
  \<open>makePort (makeAddr p)\<close> is \<open>p\<close> with a nil error; and \<open>makePort\<close> returns port 0 with
  a non-nil error whenever its argument has no colon or the part after its last colon
  is not a decimal integer fitting in 16 bits.
\<close>

theorem makePort_roundtrip_rejects:
  "makePort (makeAddr p) = (p, None)
   \<and> (CHR '':'' \<notin> set addr \<or> \<not> decimal16 (port_part addr)
        \<longrightarrow> (\<exists>e. makePort addr = (0, Some e)))"
proof (intro conjI impI)
  let ?ds = "fmt_d (unat p) []"
  have lt: "unat p < 65536" using unsigned_less [of p, where ?'a = nat] by simp
  have dec: "decimal16 ?ds" using lt by (rule decimal16_fmt_d)
  then have split: "SplitHostPort (CHR '':'' # ?ds) = Inr ([], ?ds)"
    by (simp add: SplitHostPort_colon_digits decimal16_def)
  have "ParseUint ?ds = (of_nat (unat p), None)"
    using ParseUint_decimal16 [OF dec] by (simp add: dec_value_fmt_d)
  moreover have "(ucast (of_nat (unat p) :: 64 word) :: 16 word) = p"
    by (rule bit_word_eqI) (simp add: bit_simps)
  ultimately show "makePort (makeAddr p) = (p, None)"
    using split by (simp add: makePort_def makeAddr_def)
next
  assume bad: "CHR '':'' \<notin> set addr \<or> \<not> decimal16 (port_part addr)"
  show "\<exists>e. makePort addr = (0, Some e)"
  proof (cases "SplitHostPort addr")
    case (Inl e)
    then show ?thesis by (simp add: makePort_def)
  next
    case (Inr hp)
    obtain h q where hp: "hp = (h, q)" by (cases hp)
    have "CHR '':'' \<in> set addr"
      using Inr SplitHostPort_no_colon [of addr] by auto
    moreover have "q = port_part addr"
      using Inr hp SplitHostPort_port by simp
    ultimately have "\<not> decimal16 q" using bad by simp
    then obtain v e where "ParseUint q = (v, Some e)"
      using ParseUint_not_decimal16 by blast
    then show ?thesis using Inr hp by (simp add: makePort_def)
  qed
qed

theorem makePort_roundtrip_rejects_witness:
  "makePort (makeAddr 35729) = (35729, None)
   \<and> \<not> decimal16 (port_part ''localhost:65536'')
   \<and> (\<exists>e. makePort ''localhost:65536'' = (0, Some e))"
proof -
  have "\<not> decimal16 (port_part ''localhost:65536'')"
    by (simp add: decimal16_def port_part_def dec_value_def)
  then show ?thesis
    using makePort_roundtrip_rejects [of 35729 "''localhost:65536''"] by blast
qed

lemma New_server_eq:
  "New_server nm h p =
     Some \<lparr>name = nm, host = h, port = p,
           server = Some \<lparr>Addr = '''',
                      Handler = [(''/livereload.js'', jsHandler), (''/livereload'', webSocketHandler)],
                      ErrorLog = Some \<lparr>out = Stderr, prefix = ''['' @ nm @ ''] '', flag = 0\<rparr>\<rparr>,
           conns = [], js = '''',
           statusLog = Some \<lparr>out = Stdout, prefix = ''['' @ nm @ ''] '', flag = 0\<rparr>,
           liveCSS = True\<rparr>"
  by (simp add: New_server_def New_def Let_def HandleFunc_def make_connSet_def log_New_def)

lemma apply_setter_keeps:
  "apply_setter f s = Inr s' \<Longrightarrow> Name s' = Name s \<and> Host s' = Host s \<and> Port s' = Port s"
  by (cases f)
     (auto simp: SetLiveCSS_def SetStatusLog_def SetErrorLog_def Name_def Host_def Port_def
           split: option.splits)

lemma SetErrorLog_get:
  "Server.server s \<noteq> None \<Longrightarrow> \<exists>s'. SetErrorLog l s = Inr s' \<and> Server_ErrorLog s' = Inr l"
  by (auto simp: SetErrorLog_def Server_ErrorLog_def)

text \<open>
  C5, as amended. The live-CSS flag, the status sink and the error sink each have an
  explicit setter, and the getter called after the setter returns the value set (for
  the error sink on a server whose \<open>http.Server\<close> pointer is not nil, as \<open>New\<close> builds
  it). Name, host and port have getters only: no setter call changes them.
\<close>

theorem setters_roundtrip:
  "LiveCSS (SetLiveCSS v s) = v
   \<and> StatusLog (SetStatusLog l s) = l
   \<and> (Server.server s \<noteq> None \<longrightarrow> (\<exists>s'. SetErrorLog l s = Inr s' \<and> Server_ErrorLog s' = Inr l))
   \<and> (apply_setter f s = Inr s' \<longrightarrow> Name s' = Name s \<and> Host s' = Host s \<and> Port s' = Port s)"
  using SetErrorLog_get [of s l] apply_setter_keeps [of f s s']
  by (simp add: LiveCSS_def SetLiveCSS_def StatusLog_def SetStatusLog_def)

theorem setters_roundtrip_witness:
  "Server.server (the (New_server DefaultName DefaultHost DefaultPort)) \<noteq> None
   \<and> (\<exists>s'. SetErrorLog None (the (New_server DefaultName DefaultHost DefaultPort)) = Inr s'
          \<and> Server_ErrorLog s' = Inr None)
   \<and> apply_setter (CallSetLiveCSS False) (the (New_server DefaultName DefaultHost DefaultPort))
       = Inr (SetLiveCSS False (the (New_server DefaultName DefaultHost DefaultPort)))
   \<and> Name (SetLiveCSS False (the (New_server DefaultName DefaultHost DefaultPort))) = DefaultName"
  using setters_roundtrip [of False "the (New_server DefaultName DefaultHost DefaultPort)" None
      "CallSetLiveCSS False" "SetLiveCSS False (the (New_server DefaultName DefaultHost DefaultPort))"]
  by (simp add: New_server_eq Name_def)

text \<open>
  C5 as stated fails: on the server \<open>New\<close> builds from the defaults, no setter call
  yields a server with another name, host or port.
\<close>

theorem no_setter_for_name_host_port_counterexample:
  "\<not> (\<exists>f s'. apply_setter f (the (New_server DefaultName DefaultHost DefaultPort)) = Inr s'
        \<and> (Name s' = ''other'' \<or> Host s' = ''example.org'' \<or> Port s' = 8080))"
proof
  assume "\<exists>f s'. apply_setter f (the (New_server DefaultName DefaultHost DefaultPort)) = Inr s'
        \<and> (Name s' = ''other'' \<or> Host s' = ''example.org'' \<or> Port s' = 8080)"
  then obtain f s' where
    ap: "apply_setter f (the (New_server DefaultName DefaultHost DefaultPort)) = Inr s'" and
    ch: "Name s' = ''other'' \<or> Host s' = ''example.org'' \<or> Port s' = 8080"
    by blast
  from apply_setter_keeps [OF ap]
  have "Name s' = DefaultName \<and> Host s' = DefaultHost \<and> Port s' = DefaultPort"
    by (simp add: New_server_eq Name_def Host_def Port_def)
  with ch show False
    by (simp add: DefaultName_def DefaultHost_def DefaultPort_def)
qed

lemma example_state_eq:
  "example_state =
     \<lparr>this = 0,
      srv = (the (New_server DefaultName DefaultHost DefaultPort))\<lparr>conns := [1, 0]\<rparr>,
      conn_heap =
        [\<lparr>conn = 7, server = 0, handshake = False, reloadChan = 0, alertChan = 1, closeChan = 2\<rparr>,
         \<lparr>conn = 8, server = 0, handshake = False, reloadChan = 3, alertChan = 4, closeChan = 5\<rparr>],
      chan_heap = [ChanString, ChanString, ChanCloseSignal, ChanString, ChanString, ChanCloseSignal],
      events = [Go 0, Go 1]\<rparr>"
  by (simp add: example_state_def newConn_def make_chan_def init_state_def Let_def
      connSet_add_def New_server_eq)

lemma wf_example_state: "wf example_state"
  by (simp add: example_state_eq wf_def chans_of_def New_server_eq)

text \<open>
  C6. When \<open>net.Listen\<close> fails, \<open>ListenAndServe\<close> returns that error and nothing
  else happens: the state, with its registry, its connections and its events, is the
  one before the call, so nothing was logged and no listener was handed to \<open>Serve\<close>.
\<close>

theorem ListenAndServe_bind_failure:
  "net_Listen env ''tcp'' (Server_Addr (srv st)) = Inl err
   \<Longrightarrow> ListenAndServe env st = Inr (Return (Some err), st)"
  by (simp add: ListenAndServe_def)

theorem ListenAndServe_bind_failure_witness:
  "net_Listen refusing_env ''tcp'' (Server_Addr (srv example_state))
     = Inl (OpError ''listen tcp: address already in use'')
   \<and> ListenAndServe refusing_env example_state
     = Inr (Return (Some (OpError ''listen tcp: address already in use'')), example_state)"
proof -
  have h: "net_Listen refusing_env ''tcp'' (Server_Addr (srv example_state))
     = Inl (OpError ''listen tcp: address already in use'')"
    by (simp add: refusing_env_def)
  show ?thesis
    using h ListenAndServe_bind_failure [OF h] by simp
qed

lemma range_conns_send:
  "list_all (\<lambda>c. c < length (conn_heap st)) cs \<Longrightarrow>
   range_conns (\<lambda>c st2. case deref c st2 of
                          Inl p \<Rightarrow> Inl p
                        | Inr co \<Rightarrow> Inr (chan_send (sel co) v st2)) cs st
   = Inr (st\<lparr>events := events st @ map (\<lambda>c. Send (sel (conn_heap st ! c)) v) cs\<rparr>)"
proof (induction cs arbitrary: st)
  case Nil
  show ?case by simp
next
  case (Cons c cs)
  let ?st1 = "chan_send (sel (conn_heap st ! c)) v st"
  have heap: "conn_heap ?st1 = conn_heap st" by (simp add: chan_send_def)
  have "list_all (\<lambda>c. c < length (conn_heap ?st1)) cs"
    using Cons.prems by (simp add: heap)
  from Cons.IH [OF this] show ?case
    using Cons.prems by (simp add: deref_def heap) (simp add: chan_send_def)
qed

lemma logStatus_eq:
  "logStatus [text] st = Inr (st\<lparr>events := events st @ status_line (srv st) text\<rparr>)"
  by (cases "statusLog (srv st)") (simp_all add: logStatus_def status_line_def)

lemma Reload_eq:
  assumes "list_all (\<lambda>c. c < length (conn_heap st)) (conns (srv st))"
  shows "Reload file st =
     Inr (st\<lparr>events := events st @ status_line (srv st) (''requesting reload: '' @ file)
            @ map (\<lambda>c. Send (reloadChan (conn_heap st ! c)) file) (conns (srv st))\<rparr>)"
proof -
  let ?st1 = "st\<lparr>events := events st @ status_line (srv st) (''requesting reload: '' @ file)\<rparr>"
  have "list_all (\<lambda>c. c < length (conn_heap ?st1)) (conns (srv ?st1))"
    using assms by simp
  from range_conns_send [OF this, of reloadChan "file"] show ?thesis
    by (simp add: Reload_def logStatus_eq)
qed

lemma Alert_eq:
  assumes "list_all (\<lambda>c. c < length (conn_heap st)) (conns (srv st))"
  shows "Alert msg st =
     Inr (st\<lparr>events := events st @ status_line (srv st) (''requesting alert: '' @ msg)
            @ map (\<lambda>c. Send (alertChan (conn_heap st ! c)) msg) (conns (srv st))\<rparr>)"
proof -
  let ?st1 = "st\<lparr>events := events st @ status_line (srv st) (''requesting alert: '' @ msg)\<rparr>"
  have "list_all (\<lambda>c. c < length (conn_heap ?st1)) (conns (srv ?st1))"
    using assms by simp
  from range_conns_send [OF this, of alertChan msg] show ?thesis
    by (simp add: Alert_def logStatus_eq)
qed

lemma sends_on_append: "sends_on ch (xs @ ys) = sends_on ch xs @ sends_on ch ys"
  by (induction ch xs rule: sends_on.induct) simp_all

lemma log_lines_append: "log_lines (xs @ ys) = log_lines xs @ log_lines ys"
  by (induction xs rule: log_lines.induct) simp_all

lemma sends_on_map:
  "sends_on ch (map (\<lambda>c. Send (g c) v) cs) = map (\<lambda>c. v) (filter (\<lambda>c. g c = ch) cs)"
  by (induction cs) simp_all

lemma log_lines_map_Send: "log_lines (map (\<lambda>c. Send (g c) v) cs) = []"
  by (induction cs) simp_all

lemma sends_on_status_line: "sends_on ch (status_line s t) = []"
  by (simp add: status_line_def split: option.splits)

lemma all_log_or_send_status_line: "list_all is_log_or_send (status_line s t)"
  by (simp add: status_line_def split: option.splits)

lemma all_log_or_send_map: "list_all is_log_or_send (map (\<lambda>c. Send (g c) v) cs)"
  by (induction cs) simp_all

lemma concat_distinct_index:
  "distinct (concat xss) \<Longrightarrow> i < length xss \<Longrightarrow> j < length xss \<Longrightarrow>
   x \<in> set (xss ! i) \<Longrightarrow> x \<in> set (xss ! j) \<Longrightarrow> i = j"
proof (induction xss arbitrary: i j)
  case Nil
  then show ?case by simp
next
  case (Cons xs xss)
  have disj: "set xs \<inter> \<Union> (set ` set xss) = {}" and d: "distinct (concat xss)"
    using Cons.prems(1) by auto
  show ?case
  proof (cases i)
    case 0
    show ?thesis
    proof (cases j)
      case 0
      with \<open>i = 0\<close> show ?thesis by simp
    next
      case (Suc j')
      then have "x \<in> set (xss ! j')" "j' < length xss" using Cons.prems by simp_all
      then have "x \<in> \<Union> (set ` set xss)" by (metis UN_I nth_mem)
      moreover have "x \<in> set xs" using Cons.prems \<open>i = 0\<close> by simp
      ultimately show ?thesis using disj by blast
    qed
  next
    case (Suc i')
    show ?thesis
    proof (cases j)
      case 0
      have "x \<in> set (xss ! i')" "i' < length xss" using Cons.prems Suc by simp_all
      then have "x \<in> \<Union> (set ` set xss)" by (metis UN_I nth_mem)
      moreover have "x \<in> set xs" using Cons.prems \<open>j = 0\<close> by simp
      ultimately show ?thesis using disj by blast
    next
      case (Suc j')
      have "i' = j'"
        using Cons.IH [OF d, of i' j'] Cons.prems Suc \<open>i = Suc i'\<close> by simp
      then show ?thesis using Suc \<open>i = Suc i'\<close> by simp
    qed
  qed
qed

lemma chan_owner:
  assumes "wf st" "i < length (conn_heap st)" "j < length (conn_heap st)"
    "ch \<in> set (chans_of (conn_heap st ! i))" "ch \<in> set (chans_of (conn_heap st ! j))"
  shows "i = j"
proof -
  have "distinct (concat (map chans_of (conn_heap st)))"
    using assms(1) by (simp add: wf_def)
  from concat_distinct_index [OF this, of i j ch] show ?thesis
    using assms by simp
qed

lemma registered_valid:
  "wf st \<Longrightarrow> c \<in> set (conns (srv st)) \<Longrightarrow> c < length (conn_heap st)"
  by (simp add: wf_def list_all_iff)

lemma filter_single:
  "distinct cs \<Longrightarrow> c \<in> set cs \<Longrightarrow> (\<And>c'. c' \<in> set cs \<Longrightarrow> P c' \<Longrightarrow> c' = c) \<Longrightarrow> P c \<Longrightarrow>
   filter P cs = [c]"
proof (induction cs)
  case Nil
  then show ?case by simp
next
  case (Cons a cs)
  show ?case
  proof (cases "a = c")
    case True
    then have "c \<notin> set cs" using Cons.prems(1) by simp
    then have "filter P cs = []"
      using Cons.prems(3) by (auto simp: filter_empty_conv)
    then show ?thesis using True Cons.prems(4) by simp
  next
    case False
    then have "\<not> P a" using Cons.prems(3) [of a] by auto
    moreover have "filter P cs = [c]"
      using Cons.IH Cons.prems False by auto
    ultimately show ?thesis by simp
  qed
qed

lemma fan_out_sends:
  assumes wf: "wf st" and sel: "\<And>co. sel co \<in> set (chans_of co)"
    and st': "st' = st\<lparr>events := events st @ status_line (srv st) t
                @ map (\<lambda>c. Send (sel (conn_heap st ! c)) v) (conns (srv st))\<rparr>"
  shows "fan_out sel v st st'"
proof -
  let ?cs = "conns (srv st)"
  let ?g = "\<lambda>c. sel (conn_heap st ! c)"
  have new: "new_events st st' = status_line (srv st) t @ map (\<lambda>c. Send (?g c) v) ?cs"
    by (simp add: new_events_def st')
  have sends: "sends_on ch (new_events st st') = map (\<lambda>c. v) (filter (\<lambda>c. ?g c = ch) ?cs)" for ch
    by (simp add: new sends_on_append sends_on_status_line sends_on_map)
  have dist: "distinct ?cs" using wf by (simp add: wf_def)
  have owner: "c' = c"
    if "c' \<in> set ?cs" "c < length (conn_heap st)" "?g c' = ch"
      "ch \<in> set (chans_of (conn_heap st ! c))" for c c' ch
  proof -
    have "c' < length (conn_heap st)" using wf that(1) by (rule registered_valid)
    moreover have "ch \<in> set (chans_of (conn_heap st ! c'))" using sel [of "conn_heap st ! c'"] that(3) by simp
    ultimately show ?thesis using chan_owner [OF wf _ that(2) _ that(4)] by blast
  qed
  have reg: "sends_on ch (new_events st st') = (if ch = ?g c then [v] else [])"
    if c: "c \<in> set ?cs" and ch: "ch \<in> set (chans_of (conn_heap st ! c))" for c ch
  proof -
    have lt: "c < length (conn_heap st)" using wf c by (rule registered_valid)
    show ?thesis
    proof (cases "ch = ?g c")
      case True
      have "filter (\<lambda>c'. ?g c' = ch) ?cs = [c]"
      proof (rule filter_single [OF dist c])
        fix c' assume "c' \<in> set ?cs" "?g c' = ch"
        then show "c' = c" using owner [OF _ lt _ ch] by blast
      next
        show "?g c = ch" using True by simp
      qed
      then show ?thesis using True by (simp add: sends)
    next
      case False
      have "filter (\<lambda>c'. ?g c' = ch) ?cs = []"
      proof (rule ccontr)
        assume "filter (\<lambda>c'. ?g c' = ch) ?cs \<noteq> []"
        then obtain c' where c': "c' \<in> set ?cs" "?g c' = ch"
          by (auto simp: filter_empty_conv)
        then have "c' = c" using owner [OF _ lt _ ch] by blast
        then show False using c'(2) False by simp
      qed
      then show ?thesis using False by (simp add: sends)
    qed
  qed
  have unreg: "sends_on ch (new_events st st') = []"
    if lt: "c < length (conn_heap st)" and c: "c \<notin> set ?cs"
      and ch: "ch \<in> set (chans_of (conn_heap st ! c))" for c ch
  proof -
    have "filter (\<lambda>c'. ?g c' = ch) ?cs = []"
    proof (rule ccontr)
      assume "filter (\<lambda>c'. ?g c' = ch) ?cs \<noteq> []"
      then obtain c' where c': "c' \<in> set ?cs" "?g c' = ch"
        by (auto simp: filter_empty_conv)
      then have "c' = c" using owner [OF _ lt _ ch] by blast
      then show False using c'(1) c by simp
    qed
    then show ?thesis by (simp add: sends)
  qed
  have only: "list_all is_log_or_send (new_events st st')"
    by (simp add: new all_log_or_send_status_line all_log_or_send_map)
  show ?thesis
    unfolding fan_out_def using reg unreg only by (simp add: st')
qed

lemma wf_registry_valid:
  "wf st \<Longrightarrow> list_all (\<lambda>c. c < length (conn_heap st)) (conns (srv st))"
  by (simp add: wf_def)


lemma newConn_eq:
  "newConn ws st =
     st\<lparr>chan_heap := chan_heap st @ [ChanString, ChanString, ChanCloseSignal],
        conn_heap := conn_heap st @
          [\<lparr>conn = ws, server = this st, handshake = False,
            reloadChan = length (chan_heap st), alertChan = Suc (length (chan_heap st)),
            closeChan = Suc (Suc (length (chan_heap st)))\<rparr>],
        srv := (srv st)\<lparr>conns := connSet_add (length (conn_heap st)) (conns (srv st))\<rparr>,
        events := events st @ [Go (length (conn_heap st))]\<rparr>"
  by (simp add: newConn_def make_chan_def Let_def)

lemma wf_fresh_ref: "wf st \<Longrightarrow> length (conn_heap st) \<notin> set (conns (srv st))"
  by (auto simp: wf_def list_all_iff)

lemma chan_bound:
  assumes "wf st" "co \<in> set (conn_heap st)" "ch \<in> set (chans_of co)"
  shows "ch < length (chan_heap st)"
proof -
  have "\<forall>y \<in> set (conn_heap st). \<forall>ch \<in> set (chans_of y). ch < length (chan_heap st)"
    using assms(1) by (simp add: wf_def list_all_iff)
  then show ?thesis using assms(2,3) by blast
qed

lemma wf_newConn:
  assumes "wf st"
  shows "wf (newConn ws st)"
proof -
  let ?n = "length (chan_heap st)"
  let ?old = "concat (map chans_of (conn_heap st))"
  have old1: "distinct ?old"
    using assms by (simp add: wf_def)
  have old2: "\<forall>ch \<in> set ?old. ch < ?n"
    using chan_bound [OF assms] by auto
  have fresh: "length (conn_heap st) \<notin> set (conns (srv st))"
    using assms by (rule wf_fresh_ref)
  have reg: "distinct (conns (srv st))" "\<forall>c \<in> set (conns (srv st)). c < length (conn_heap st)"
    using assms by (simp_all add: wf_def list_all_iff)
  have notin: "?n \<notin> set ?old" "Suc ?n \<notin> set ?old" "Suc (Suc ?n) \<notin> set ?old"
    using old2 by fastforce+
  have d: "distinct (?old @ [?n, Suc ?n, Suc (Suc ?n)])"
    using old1 notin by simp
  have b: "\<forall>ch \<in> set (?old @ [?n, Suc ?n, Suc (Suc ?n)]). ch < Suc (Suc (Suc ?n))"
    using old2 by fastforce
  have r: "\<forall>c \<in> set (conns (srv st)). c < Suc (length (conn_heap st))"
    using reg(2) by auto
  show ?thesis
    unfolding wf_def newConn_eq
    using d b fresh reg(1) r
    by (simp add: connSet_add_def chans_of_def list_all_iff)
qed

text \<open>
  C8. \<open>newConn\<close> allocates one new \<open>conn\<close> for the socket, with \<open>handshake\<close> false
  and with three channels that are pairwise different,
  newly allocated and used by no earlier connection; the new reference was not in the
  registry before and is in it exactly once afterwards; and the one event of the call
  is the start of the goroutine for this connection. The state stays well-formed.
\<close>

theorem newConn_registers:
  assumes "wf st"
  shows "\<exists>co. conn_heap (newConn ws st) = conn_heap st @ [co]
     \<and> conn co = ws \<and> handshake co = False
     \<and> distinct (chans_of co)
     \<and> (\<forall>ch \<in> set (chans_of co).
            length (chan_heap st) \<le> ch \<and> ch < length (chan_heap (newConn ws st))
            \<and> (\<forall>c' < length (conn_heap st). ch \<notin> set (chans_of (conn_heap st ! c'))))
     \<and> length (conn_heap st) \<notin> set (conns (srv st))
     \<and> conns (srv (newConn ws st)) = connSet_add (length (conn_heap st)) (conns (srv st))
     \<and> count_list (conns (srv (newConn ws st))) (length (conn_heap st)) = 1
     \<and> set (conns (srv (newConn ws st))) = insert (length (conn_heap st)) (set (conns (srv st)))
     \<and> events (newConn ws st) = events st @ [Go (length (conn_heap st))]
     \<and> wf (newConn ws st)"
proof -
  let ?n = "length (chan_heap st)"
  let ?c = "length (conn_heap st)"
  let ?co = "\<lparr>conn = ws, server = this st, handshake = False,
            reloadChan = ?n, alertChan = Suc ?n, closeChan = Suc (Suc ?n)\<rparr>"
  have fresh: "?c \<notin> set (conns (srv st))" using assms by (rule wf_fresh_ref)
  have old: "ch < ?n" if "c' < ?c" "ch \<in> set (chans_of (conn_heap st ! c'))" for c' ch
    using chan_bound [OF assms, of "conn_heap st ! c'" ch] that by simp
  have chans: "\<forall>ch \<in> set (chans_of ?co). ?n \<le> ch \<and> ch < Suc (Suc (Suc ?n))
      \<and> (\<forall>c' < ?c. ch \<notin> set (chans_of (conn_heap st ! c')))"
  proof
    fix ch assume "ch \<in> set (chans_of ?co)"
    then have ge: "?n \<le> ch \<and> ch < Suc (Suc (Suc ?n))" by (auto simp: chans_of_def)
    moreover have "\<forall>c' < ?c. ch \<notin> set (chans_of (conn_heap st ! c'))"
      using old ge by fastforce
    ultimately show "?n \<le> ch \<and> ch < Suc (Suc (Suc ?n))
      \<and> (\<forall>c' < ?c. ch \<notin> set (chans_of (conn_heap st ! c')))" by simp
  qed
  have once: "count_list (connSet_add ?c (conns (srv st))) ?c = 1"
    using fresh by (simp add: connSet_add_def count_list_0_iff)
  have "conn_heap (newConn ws st) = conn_heap st @ [?co]
     \<and> conn ?co = ws \<and> handshake ?co = False
     \<and> distinct (chans_of ?co)
     \<and> (\<forall>ch \<in> set (chans_of ?co).
            length (chan_heap st) \<le> ch \<and> ch < length (chan_heap (newConn ws st))
            \<and> (\<forall>c' < length (conn_heap st). ch \<notin> set (chans_of (conn_heap st ! c'))))
     \<and> length (conn_heap st) \<notin> set (conns (srv st))
     \<and> conns (srv (newConn ws st)) = connSet_add (length (conn_heap st)) (conns (srv st))
     \<and> count_list (conns (srv (newConn ws st))) (length (conn_heap st)) = 1
     \<and> set (conns (srv (newConn ws st))) = insert (length (conn_heap st)) (set (conns (srv st)))
     \<and> events (newConn ws st) = events st @ [Go (length (conn_heap st))]
     \<and> wf (newConn ws st)"
    using chans fresh once wf_newConn [OF assms, of ws]
    by (simp add: newConn_eq init_Connection_def) (simp add: chans_of_def connSet_add_def)
  then show ?thesis by blast
qed

theorem newConn_registers_witness:
  "wf example_state
   \<and> conn_heap (newConn 9 example_state) = conn_heap example_state @
        [\<lparr>conn = 9, server = 0, handshake = False, reloadChan = 6, alertChan = 7, closeChan = 8\<rparr>]
   \<and> conns (srv (newConn 9 example_state)) = [2, 1, 0]
   \<and> events (newConn 9 example_state) = [Go 0, Go 1, Go 2]"
proof -
  have "wf example_state" by (rule wf_example_state)
  from newConn_registers [OF this, of 9] show ?thesis
    by (simp add: wf_example_state) (simp add: example_state_eq newConn_eq connSet_add_def)
qed



lemma wf_closing: "wf st \<Longrightarrow> wf (closing c st)"
  by (auto simp: wf_def closing_def connSet_remove_def list_all_iff distinct_removeAll)

lemma log_lines_status_line:
  "log_lines (status_line s t) =
     (case statusLog s of None \<Rightarrow> [] | Some l \<Rightarrow> [(l, Sprintln [t])])"
  by (simp add: status_line_def split: option.splits)

lemma broadcast_log_lines:
  "st' = st\<lparr>events := events st @ status_line (srv st) t
                @ map (\<lambda>c. Send (g c) v) cs\<rparr> \<Longrightarrow>
   log_lines (new_events st st') =
     (case statusLog (srv st) of None \<Rightarrow> [] | Some l \<Rightarrow> [(l, Sprintln [t])])"
  by (simp add: new_events_def log_lines_append log_lines_map_Send log_lines_status_line)



lemma Reload_result:
  assumes "wf st"
  shows "\<exists>st'. Reload file st = Inr st' \<and> fan_out reloadChan file st st'
      \<and> log_lines (new_events st st') =
          (case statusLog (srv st) of
             None \<Rightarrow> []
           | Some l \<Rightarrow> [(l, Sprintln [''requesting reload: '' @ file])])"
  using Reload_eq [OF wf_registry_valid [OF assms], of "file"]
    fan_out_sends [OF assms, of reloadChan _ "''requesting reload: '' @ file" "file"]
    broadcast_log_lines [of _ st "''requesting reload: '' @ file"
      "\<lambda>c. reloadChan (conn_heap st ! c)" "file" "conns (srv st)"]
  by (simp add: chans_of_def)

lemma Alert_result:
  assumes "wf st"
  shows "\<exists>st'. Alert msg st = Inr st' \<and> fan_out alertChan msg st st'
      \<and> log_lines (new_events st st') =
          (case statusLog (srv st) of
             None \<Rightarrow> []
           | Some l \<Rightarrow> [(l, Sprintln [''requesting alert: '' @ msg])])"
  using Alert_eq [OF wf_registry_valid [OF assms], of msg]
    fan_out_sends [OF assms, of alertChan _ "''requesting alert: '' @ msg" msg]
    broadcast_log_lines [of _ st "''requesting alert: '' @ msg"
      "\<lambda>c. alertChan (conn_heap st ! c)" msg "conns (srv st)"]
  by (simp add: chans_of_def)




lemma fan_out_absent:
  assumes "absent c co st" "fan_out sel v st st'" "ch \<in> set (chans_of co)"
  shows "sends_on ch (new_events st st') = []"
  using assms unfolding absent_def fan_out_def by blast

lemma fan_out_keeps_absent:
  assumes "absent c co st" "fan_out sel v st st'"
  shows "absent c co st'"
  using assms unfolding absent_def fan_out_def wf_def by simp

lemma Reload_events:
  assumes "wf st" "Reload file st = Inr st'"
  shows "events st' = events st @ new_events st st'"
  using Reload_eq [OF wf_registry_valid [OF assms(1)], of "file"] assms(2)
  by (auto simp: new_events_def)

lemma Alert_events:
  assumes "wf st" "Alert msg st = Inr st'"
  shows "events st' = events st @ new_events st st'"
  using Alert_eq [OF wf_registry_valid [OF assms(1)], of msg] assms(2)
  by (auto simp: new_events_def)

lemma apply_setter_server:
  "Server.server s \<noteq> None \<Longrightarrow>
   \<exists>s'. apply_setter f s = Inr s' \<and> conns s' = conns s \<and> Server.server s' \<noteq> None"
  by (cases f) (auto simp: SetLiveCSS_def SetStatusLog_def SetErrorLog_def)

lemma exec_absent:
  assumes "absent c co st"
  shows "\<exists>st' es. exec x st = Inr st' \<and> events st' = events st @ es
      \<and> (\<forall>ch \<in> set (chans_of co). sends_on ch es = []) \<and> absent c co st'"
proof (cases x)
  case (CallReload f)
  have w: "wf st" using assms by (simp add: absent_def)
  obtain st' where r: "Reload f st = Inr st'" and fo: "fan_out reloadChan f st st'"
    using Reload_result [OF w, of f] by blast
  have "events st' = events st @ new_events st st'" using w r by (rule Reload_events)
  moreover have "\<forall>ch \<in> set (chans_of co). sends_on ch (new_events st st') = []"
    using fan_out_absent [OF assms fo] by blast
  moreover have "absent c co st'" using assms fo by (rule fan_out_keeps_absent)
  ultimately show ?thesis using CallReload r by auto
next
  case (CallAlert m)
  have w: "wf st" using assms by (simp add: absent_def)
  obtain st' where r: "Alert m st = Inr st'" and fo: "fan_out alertChan m st st'"
    using Alert_result [OF w, of m] by blast
  have "events st' = events st @ new_events st st'" using w r by (rule Alert_events)
  moreover have "\<forall>ch \<in> set (chans_of co). sends_on ch (new_events st st') = []"
    using fan_out_absent [OF assms fo] by blast
  moreover have "absent c co st'" using assms fo by (rule fan_out_keeps_absent)
  ultimately show ?thesis using CallAlert r by auto
next
  case (CallNewConn ws)
  have w: "wf st" and lt: "c < length (conn_heap st)" using assms by (simp_all add: absent_def)
  have "wf (newConn ws st)" using w by (rule wf_newConn)
  then have "absent c co (newConn ws st)"
    using assms lt unfolding absent_def
    by (simp add: newConn_eq connSet_add_def nth_append)
  moreover have "events (newConn ws st) = events st @ [Go (length (conn_heap st))]"
    by (simp add: newConn_eq)
  ultimately show ?thesis using CallNewConn by auto
next
  case (CallClosing c')
  have w: "wf st" using assms by (simp add: absent_def)
  have "wf (closing c' st)" using w by (rule wf_closing)
  then have "absent c co (closing c' st)"
    using assms unfolding absent_def by (simp add: closing_def connSet_remove_def)
  moreover have "events (closing c' st) = events st @ []" by (simp add: closing_def)
  ultimately show ?thesis using CallClosing by (intro exI [of _ "closing c' st"] exI [of _ "[]"]) simp
next
  case (CallSetter f)
  have sv: "Server.server (srv st) \<noteq> None" using assms by (simp add: absent_def)
  obtain s' where s': "apply_setter f (srv st) = Inr s'" "conns s' = conns (srv st)"
      "Server.server s' \<noteq> None"
    using apply_setter_server [OF sv, of f] by blast
  have "absent c co (st\<lparr>srv := s'\<rparr>)"
    using assms s'(2,3) unfolding absent_def wf_def by simp
  then show ?thesis using CallSetter s'(1)
    by (intro exI [of _ "st\<lparr>srv := s'\<rparr>"] exI [of _ "[]"]) simp
qed

lemma run_absent:
  "absent c co st \<Longrightarrow>
   \<exists>st' es. run xs st = Inr st' \<and> events st' = events st @ es
      \<and> (\<forall>ch \<in> set (chans_of co). sends_on ch es = []) \<and> absent c co st'"
proof (induction xs arbitrary: st)
  case Nil
  then show ?case by simp
next
  case (Cons x xs)
  obtain st1 es1 where 1: "exec x st = Inr st1" "events st1 = events st @ es1"
      "\<forall>ch \<in> set (chans_of co). sends_on ch es1 = []" "absent c co st1"
    using exec_absent [OF Cons.prems, of x] by blast
  obtain st2 es2 where 2: "run xs st1 = Inr st2" "events st2 = events st1 @ es2"
      "\<forall>ch \<in> set (chans_of co). sends_on ch es2 = []" "absent c co st2"
    using Cons.IH [OF 1(4)] by blast
  have "run (x # xs) st = Inr st2" using 1(1) 2(1) by simp
  moreover have "events st2 = events st @ (es1 @ es2)" using 1(2) 2(2) by simp
  moreover have "\<forall>ch \<in> set (chans_of co). sends_on ch (es1 @ es2) = []"
    using 1(3) 2(3) by (simp add: sends_on_append)
  ultimately show ?case using 2(4) by blast
qed

text \<open>
  Well-formedness is an invariant: it holds for a server without connections and every
  call keeps it.
\<close>

lemma wf_init_state: "conns s = [] \<Longrightarrow> wf (init_state a s)"
  by (simp add: wf_def init_state_def)

lemma apply_setter_conns: "apply_setter f s = Inr s' \<Longrightarrow> conns s' = conns s"
  by (cases f)
     (auto simp: SetLiveCSS_def SetStatusLog_def SetErrorLog_def split: option.splits)

lemma wf_exec:
  assumes "wf st" "exec x st = Inr st'"
  shows "wf st'"
proof (cases x)
  case (CallReload f)
  then show ?thesis
    using Reload_eq [OF wf_registry_valid [OF assms(1)], of f] assms by (auto simp: wf_def)
next
  case (CallAlert m)
  then show ?thesis
    using Alert_eq [OF wf_registry_valid [OF assms(1)], of m] assms by (auto simp: wf_def)
next
  case (CallNewConn ws)
  then show ?thesis using wf_newConn [OF assms(1), of ws] assms(2) by simp
next
  case (CallClosing c)
  then show ?thesis using wf_closing [OF assms(1), of c] assms(2) by simp
next
  case (CallSetter f)
  then obtain s' where "apply_setter f (srv st) = Inr s'" "st' = st\<lparr>srv := s'\<rparr>"
    using assms(2) by (auto split: sum.splits)
  then show ?thesis using assms(1) apply_setter_conns [of f "srv st" s'] by (simp add: wf_def)
qed

lemma wf_run: "wf st \<Longrightarrow> run xs st = Inr st' \<Longrightarrow> wf st'"
proof (induction xs arbitrary: st)
  case Nil
  then show ?case by simp
next
  case (Cons x xs)
  then obtain st1 where 1: "exec x st = Inr st1" "run xs st1 = Inr st'"
    by (auto split: sum.splits)
  from Cons.IH [OF wf_exec [OF Cons.prems(1) 1(1)] 1(2)] show ?case .
qed

lemma closing_absent:
  assumes "wf st" "Server.server (srv st) \<noteq> None" "c < length (conn_heap st)"
  shows "absent c (conn_heap st ! c) (closing c st)"
  using wf_closing [OF assms(1), of c] assms(2,3)
  unfolding absent_def by (simp add: closing_def connSet_remove_def)

lemma conn_step_Closed: "cstate K = Closed \<Longrightarrow> conn_step proto s ok ev K = (K, [])"
  by simp

lemma conn_step_enters_Closed:
  assumes "conn_step proto s ok ev K = (K', acts)" "cstate K' = Closed" "cstate K \<noteq> Closed"
  shows "Deregister \<in> set acts"
proof (cases "cstate K")
  case Connecting
  with assms show ?thesis by (cases ev) auto
next
  case AwaitingHandshake
  with assms show ?thesis
    by (cases ev) (auto split: decoded.splits if_splits)
next
  case Live
  with assms show ?thesis
    by (cases ev) (auto split: decoded.splits decode_error.splits if_splits)
next
  case Closing
  with assms show ?thesis by (cases ev) auto
next
  case Closed
  with assms show ?thesis by simp
qed

text \<open>
  C3. Once the Closing transition has deregistered connection \<open>c\<close>, it is absent from
  the registry and stays absent: any later sequence of \<open>Reload\<close>, \<open>Alert\<close>, \<open>newConn\<close>,
  further closings and setter calls runs without a panic and issues no send on any
  channel of \<open>c\<close>. In the machine, a step into Closed always deregisters, and in
  Closed every event, a queued command included, changes nothing and writes nothing.
\<close>

theorem closed_connection_unreachable:
  assumes "wf st" "Server.server (srv st) \<noteq> None" "c < length (conn_heap st)"
  shows "c \<notin> set (conns (srv (closing c st)))
     \<and> (\<forall>calls. \<exists>st'. run calls (closing c st) = Inr st'
            \<and> c \<notin> set (conns (srv st'))
            \<and> (\<forall>ch \<in> set (chans_of (conn_heap st ! c)).
                  sends_on ch (new_events (closing c st) st') = []))
     \<and> (cstate K = Closed \<longrightarrow> conn_step proto s ok ev K = (K, []))
     \<and> (conn_step proto s ok ev K = (K', acts) \<and> cstate K' = Closed \<and> cstate K \<noteq> Closed
          \<longrightarrow> Deregister \<in> set acts \<and> perform c Deregister st = closing c st)"
proof (intro conjI allI impI)
  show "c \<notin> set (conns (srv (closing c st)))"
    by (simp add: closing_def connSet_remove_def)
next
  fix calls
  let ?co = "conn_heap st ! c"
  obtain st' es where r: "run calls (closing c st) = Inr st'"
      "events st' = events (closing c st) @ es"
      "\<forall>ch \<in> set (chans_of ?co). sends_on ch es = []" "absent c ?co st'"
    using run_absent [OF closing_absent [OF assms], of calls] by blast
  have "new_events (closing c st) st' = es" using r(2) by (simp add: new_events_def)
  then show "\<exists>st'. run calls (closing c st) = Inr st'
            \<and> c \<notin> set (conns (srv st'))
            \<and> (\<forall>ch \<in> set (chans_of (conn_heap st ! c)).
                  sends_on ch (new_events (closing c st) st') = [])"
    using r by (auto simp: absent_def)
next
  assume "cstate K = Closed"
  then show "conn_step proto s ok ev K = (K, [])" by (rule conn_step_Closed)
next
  assume "conn_step proto s ok ev K = (K', acts) \<and> cstate K' = Closed \<and> cstate K \<noteq> Closed"
  then show "Deregister \<in> set acts" using conn_step_enters_Closed by blast
next
  show "perform c Deregister st = closing c st" by simp
qed

theorem closed_connection_unreachable_witness:
  "wf example_state \<and> Server.server (srv example_state) \<noteq> None
   \<and> 0 < length (conn_heap example_state)
   \<and> 0 \<notin> set (conns (srv (closing 0 example_state)))
   \<and> (\<exists>st'. run [CallReload ''x.css'', CallNewConn 9, CallAlert ''boom'']
                (closing 0 example_state) = Inr st'
          \<and> 0 \<notin> set (conns (srv st'))
          \<and> (\<forall>ch \<in> set (chans_of (conn_heap example_state ! 0)).
                sends_on ch (new_events (closing 0 example_state) st') = []))
   \<and> conn_step ''p'' (srv example_state) True (ReloadRequest ''x.css'')
        \<lparr>cstate = Closed, handshakeComplete = True\<rparr>
       = (\<lparr>cstate = Closed, handshakeComplete = True\<rparr>, [])
   \<and> conn_step ''p'' (srv example_state) True Enter \<lparr>cstate = Closing, handshakeComplete = True\<rparr>
       = (\<lparr>cstate = Closed, handshakeComplete = True\<rparr>, [ReleaseSocket, Deregister])
   \<and> Deregister \<in> set [ReleaseSocket, Deregister]"
proof -
  have h: "Server.server (srv example_state) \<noteq> None" "0 < length (conn_heap example_state)"
    by (simp_all add: example_state_eq New_server_eq)
  have k: "conn_step ''p'' (srv example_state) True Enter \<lparr>cstate = Closing, handshakeComplete = True\<rparr>
       = (\<lparr>cstate = Closed, handshakeComplete = True\<rparr>, [ReleaseSocket, Deregister])"
    by simp
  note T1 = closed_connection_unreachable [OF wf_example_state h,
        of "\<lparr>cstate = Closed, handshakeComplete = True\<rparr>" "''p''" "srv example_state" True
           "ReloadRequest ''x.css''"]
  note T2 = closed_connection_unreachable [OF wf_example_state h,
        of "\<lparr>cstate = Closing, handshakeComplete = True\<rparr>" "''p''" "srv example_state" True
           Enter "\<lparr>cstate = Closed, handshakeComplete = True\<rparr>" "[ReleaseSocket, Deregister]"]
  have A: "0 \<notin> set (conns (srv (closing 0 example_state)))"
    using T1 by blast
  have B: "\<exists>st'. run [CallReload ''x.css'', CallNewConn 9, CallAlert ''boom'']
                (closing 0 example_state) = Inr st'
          \<and> 0 \<notin> set (conns (srv st'))
          \<and> (\<forall>ch \<in> set (chans_of (conn_heap example_state ! 0)).
                sends_on ch (new_events (closing 0 example_state) st') = [])"
    using T1 by blast
  have C: "conn_step ''p'' (srv example_state) True (ReloadRequest ''x.css'')
        \<lparr>cstate = Closed, handshakeComplete = True\<rparr>
       = (\<lparr>cstate = Closed, handshakeComplete = True\<rparr>, [])"
    using T1 by simp
  have D: "Deregister \<in> set [ReleaseSocket, Deregister]"
    using T2 k by simp
  from wf_example_state h A B C k D show ?thesis by blast
qed

lemma conn_step_cases:
  assumes "conn_step proto s ok ev K = (K1, a1)"
  shows "((a1 = [] \<or> a1 = [ReleaseSocket, Deregister])
          \<and> (cstate K1 = Live \<longrightarrow> cstate K = Live)
          \<and> handshakeComplete K1 = handshakeComplete K)
       \<or> (cstate K = AwaitingHandshake \<and> cstate K1 = Live \<and> handshakeComplete K1
          \<and> a1 = [WriteFrame (EncodeHello proto (Name s))] \<and> ok
          \<and> (\<exists>ps. ev = InboundFrame (Hello ps) \<and> proto \<in> set ps))
       \<or> (cstate K = Live \<and> K1 = K \<and> (\<exists>f. a1 = [WriteFrame f] \<and> is_command_frame f))"
proof (cases "cstate K")
  case Connecting
  with assms show ?thesis by (cases ev) auto
next
  case AwaitingHandshake
  with assms show ?thesis
    by (cases ev) (auto split: decoded.splits if_splits)
next
  case Live
  with assms show ?thesis
    by (cases ev)
       (auto simp: EncodeReload_def EncodeAlert_def
             split: decoded.splits decode_error.splits if_splits)
next
  case Closing
  with assms show ?thesis by (cases ev) auto
next
  case Closed
  with assms show ?thesis by simp
qed

lemma commands_gated_mono:
  "commands_gated seen as \<Longrightarrow> (seen \<longrightarrow> seen') \<Longrightarrow> commands_gated seen' as"
  by (induction seen as arbitrary: seen' rule: commands_gated.induct) (auto split: if_splits)

lemma conn_run_Cons:
  "conn_run proto ((ev, s, ok) # ins) K = (K', acts) \<Longrightarrow>
   \<exists>K1 a1 a2. conn_step proto s ok ev K = (K1, a1) \<and> conn_run proto ins K1 = (K', a2)
      \<and> acts = a1 @ a2"
  by (auto simp: Let_def split: prod.splits)

lemma conn_run_gated:
  "conn_run proto ins K = (K', acts) \<Longrightarrow> commands_gated (cstate K = Live) acts"
proof (induction ins arbitrary: K acts)
  case Nil
  then show ?case by simp
next
  case (Cons x ins)
  obtain ev s ok where x: "x = (ev, s, ok)" by (cases x)
  obtain K1 a1 a2 where st: "conn_step proto s ok ev K = (K1, a1)"
      and rn: "conn_run proto ins K1 = (K', a2)" and ac: "acts = a1 @ a2"
    using conn_run_Cons Cons.prems x by blast
  have ih: "commands_gated (cstate K1 = Live) a2" using Cons.IH [OF rn] .
  from conn_step_cases [OF st] show ?case
  proof (elim disjE conjE exE)
    assume "a1 = []" "cstate K1 = Live \<longrightarrow> cstate K = Live"
    then show ?thesis
      using commands_gated_mono [OF ih, of "cstate K = Live"] ac by simp
  next
    assume "a1 = [ReleaseSocket, Deregister]" "cstate K1 = Live \<longrightarrow> cstate K = Live"
    then show ?thesis
      using commands_gated_mono [OF ih, of "cstate K = Live"] ac by simp
  next
    assume "a1 = [WriteFrame (EncodeHello proto (Name s))]"
    then show ?thesis
      using commands_gated_mono [OF ih, of True] ac by (simp add: EncodeHello_def)
  next
    fix f assume "cstate K = Live" "K1 = K" "a1 = [WriteFrame f]" "is_command_frame f"
    then show ?thesis using ih ac by simp
  qed
qed

lemma commands_gated_split:
  "commands_gated seen (pre @ WriteFrame f # post) \<Longrightarrow> is_command_frame f \<Longrightarrow>
   seen \<or> (\<exists>ps n. WriteFrame (HelloFrame ps n) \<in> set pre)"
proof (induction seen pre rule: commands_gated.induct)
  case (1 seen)
  then show ?case by simp
next
  case (2 seen g as)
  show ?case
  proof (cases "is_command_frame g")
    case True
    with 2 show ?thesis by simp
  next
    case False
    then obtain ps n where "g = HelloFrame ps n" by (cases g) auto
    then show ?thesis by auto
  qed
next
  case (3 seen as)
  then show ?case by simp
next
  case (4 seen as)
  then show ?case by simp
qed

lemma conn_run_only_hello:
  "conn_run proto ins K = (K', acts) \<Longrightarrow> WriteFrame (HelloFrame ps n) \<in> set acts \<Longrightarrow>
   \<exists>nm. HelloFrame ps n = EncodeHello proto nm"
proof (induction ins arbitrary: K acts)
  case Nil
  then show ?case by simp
next
  case (Cons x ins)
  obtain ev s ok where x: "x = (ev, s, ok)" by (cases x)
  obtain K1 a1 a2 where st: "conn_step proto s ok ev K = (K1, a1)"
      and rn: "conn_run proto ins K1 = (K', a2)" and ac: "acts = a1 @ a2"
    using conn_run_Cons Cons.prems(1) x by blast
  from Cons.prems(2) ac consider "WriteFrame (HelloFrame ps n) \<in> set a1"
    | "WriteFrame (HelloFrame ps n) \<in> set a2" by auto
  then show ?case
  proof cases
    case 1
    with conn_step_cases [OF st] show ?thesis by auto
  next
    case 2
    then show ?thesis using Cons.IH [OF rn] by blast
  qed
qed

lemma conn_run_handshake:
  "conn_run proto ins K = (K', acts) \<Longrightarrow> \<not> handshakeComplete K \<Longrightarrow> handshakeComplete K' \<Longrightarrow>
   (\<exists>nm. WriteFrame (EncodeHello proto nm) \<in> set acts)
   \<and> (\<exists>ps s. (InboundFrame (Hello ps), s, True) \<in> set ins \<and> proto \<in> set ps)"
proof (induction ins arbitrary: K acts)
  case Nil
  then show ?case by simp
next
  case (Cons x ins)
  obtain ev s ok where x: "x = (ev, s, ok)" by (cases x)
  obtain K1 a1 a2 where st: "conn_step proto s ok ev K = (K1, a1)"
      and rn: "conn_run proto ins K1 = (K', a2)" and ac: "acts = a1 @ a2"
    using conn_run_Cons Cons.prems(1) x by blast
  show ?case
  proof (cases "handshakeComplete K1")
    case False
    from Cons.IH [OF rn False Cons.prems(3)] show ?thesis using ac by auto
  next
    case True
    with conn_step_cases [OF st] Cons.prems(2)
    have "a1 = [WriteFrame (EncodeHello proto (Name s))]" "ok"
      "\<exists>ps. ev = InboundFrame (Hello ps) \<and> proto \<in> set ps"
      by auto
    then show ?thesis using ac x by auto
  qed
qed

lemma conn_run_Live:
  "conn_run proto ins K = (K', acts) \<Longrightarrow> (cstate K = Live \<longrightarrow> handshakeComplete K) \<Longrightarrow>
   cstate K' = Live \<longrightarrow> handshakeComplete K'"
proof (induction ins arbitrary: K acts)
  case Nil
  then show ?case by simp
next
  case (Cons x ins)
  obtain ev s ok where x: "x = (ev, s, ok)" by (cases x)
  obtain K1 a1 a2 where st: "conn_step proto s ok ev K = (K1, a1)"
      and rn: "conn_run proto ins K1 = (K', a2)" and ac: "acts = a1 @ a2"
    using conn_run_Cons Cons.prems(1) x by blast
  have "cstate K1 = Live \<longrightarrow> handshakeComplete K1"
    using conn_step_cases [OF st] Cons.prems(2) by auto
  from Cons.IH [OF rn this] show ?case .
qed

lemma newConn_last:
  "last (conn_heap (newConn ws st)) =
     \<lparr>conn = ws, server = this st, handshake = False,
      reloadChan = length (chan_heap st), alertChan = Suc (length (chan_heap st)),
      closeChan = Suc (Suc (length (chan_heap st)))\<rparr>"
  by (simp add: newConn_eq)

text \<open>
  C2. For the connection \<open>newConn\<close> builds, whose flag starts false, and any sequence
  of events: every reload or alert frame written to the socket comes after the server
  hello frame; the flag is true only if the server hello has been written and a hello
  of the client naming the supported protocol has been received; and a step writes a
  reload or alert frame only from a state in which the flag is true.
\<close>

theorem handshake_gating:
  assumes "conn_run proto ins (init_Connection (last (conn_heap (newConn ws st)))) = (K, acts)"
  shows "handshakeComplete (init_Connection (last (conn_heap (newConn ws st)))) = False
     \<and> (\<forall>pre f post. acts = pre @ WriteFrame f # post \<and> is_command_frame f
           \<longrightarrow> (\<exists>nm. WriteFrame (EncodeHello proto nm) \<in> set pre))
     \<and> (handshakeComplete K
           \<longrightarrow> (\<exists>nm. WriteFrame (EncodeHello proto nm) \<in> set acts)
             \<and> (\<exists>ps s. (InboundFrame (Hello ps), s, True) \<in> set ins \<and> proto \<in> set ps))
     \<and> (\<forall>s ok ev K1 a1 f. conn_step proto s ok ev K = (K1, a1) \<and> WriteFrame f \<in> set a1
           \<and> is_command_frame f \<longrightarrow> handshakeComplete K)"
proof -
  let ?K0 = "init_Connection (last (conn_heap (newConn ws st)))"
  have init: "handshakeComplete ?K0 = False" "cstate ?K0 = Connecting"
    by (simp_all add: init_Connection_def newConn_last)
  have gated: "commands_gated False acts"
    using conn_run_gated [OF assms] init(2) by simp
  have 1: "\<exists>nm. WriteFrame (EncodeHello proto nm) \<in> set pre"
    if split: "acts = pre @ WriteFrame f # post" and cmd: "is_command_frame f" for pre f post
  proof -
    obtain ps n where h: "WriteFrame (HelloFrame ps n) \<in> set pre"
      using commands_gated_split [of False pre f post] gated split cmd by auto
    then have "WriteFrame (HelloFrame ps n) \<in> set acts" using split by simp
    from conn_run_only_hello [OF assms this] h show ?thesis by auto
  qed
  have 2: "(\<exists>nm. WriteFrame (EncodeHello proto nm) \<in> set acts)
      \<and> (\<exists>ps s. (InboundFrame (Hello ps), s, True) \<in> set ins \<and> proto \<in> set ps)"
    if "handshakeComplete K"
    using conn_run_handshake [OF assms _ that] init(1) by simp
  have live: "cstate K = Live \<longrightarrow> handshakeComplete K"
    using conn_run_Live [OF assms] init(2) by simp
  have 3: "handshakeComplete K"
    if "conn_step proto s ok ev K = (K1, a1)" "WriteFrame f \<in> set a1" "is_command_frame f"
    for s ok ev K1 a1 f
    using conn_step_cases [OF that(1)] that(2,3) live by (auto simp: EncodeHello_def)
  show ?thesis using init(1) 1 2 3 by blast
qed

theorem handshake_gating_witness:
  "conn_run ''v7'' example_inputs (init_Connection (last (conn_heap (newConn 9 example_state))))
     = (\<lparr>cstate = Live, handshakeComplete = True\<rparr>,
        [WriteFrame (HelloFrame [''v7''] ''LiveReload''),
         WriteFrame (ReloadFrame ''index.html'' True),
         WriteFrame (AlertFrame ''boom'')])
   \<and> (\<exists>nm. WriteFrame (EncodeHello ''v7'' nm) \<in> set [WriteFrame (HelloFrame [''v7''] ''LiveReload'')])
   \<and> (\<exists>ps s. (InboundFrame (Hello ps), s, True) \<in> set example_inputs \<and> ''v7'' \<in> set ps)"
proof -
  have run: "conn_run ''v7'' example_inputs
       (init_Connection (last (conn_heap (newConn 9 example_state))))
     = (\<lparr>cstate = Live, handshakeComplete = True\<rparr>,
        [WriteFrame (HelloFrame [''v7''] ''LiveReload''),
         WriteFrame (ReloadFrame ''index.html'' True),
         WriteFrame (AlertFrame ''boom'')])"
    by (simp add: example_inputs_def init_Connection_def newConn_last example_state_eq
        New_server_eq EncodeHello_def EncodeReload_def EncodeAlert_def Name_def LiveCSS_def
        DefaultName_def)
  note T = handshake_gating [OF run]
  have a: "\<exists>nm. WriteFrame (EncodeHello ''v7'' nm) \<in> set [WriteFrame (HelloFrame [''v7''] ''LiveReload'')]"
    using T [THEN conjunct2, THEN conjunct1, rule_format,
        of "[WriteFrame (HelloFrame [''v7''] ''LiveReload'')]" "ReloadFrame ''index.html'' True"
           "[WriteFrame (AlertFrame ''boom'')]"]
    by simp
  have b: "\<exists>ps s. (InboundFrame (Hello ps), s, True) \<in> set example_inputs \<and> ''v7'' \<in> set ps"
    using T by simp
  show ?thesis using run a b by blast
qed

end
